theory Spec2Isabelle
  imports Complex_Main "HOL-Library.Char_ord" "HOL-Library.List_Lexorder" "HOL-Library.Log_Nat"
begin

section \<open>Values of a float column\<close>

text \<open>
  A cell of a pandas float64 column is a finite number, one of the two infinities, or
  NaN (which pandas also uses for a missing cell). A finite cell is modelled by the real
  number it stands for. An arithmetic operation on finite cells gives the exact result
  rounded to binary64 (to the nearest representable number, a tie to the even one, and
  to an infinity beyond the largest); the special values follow IEEE 754. The sign of a
  zero is not modelled.
\<close>

datatype fl = Num real | PInf | NInf | NaN

datatype error = ValueError | IntCastingNaNError

fun isna :: "fl \<Rightarrow> bool" where
  "isna NaN = True"
| "isna _ = False"

fun is_num :: "fl \<Rightarrow> bool" where
  "is_num (Num _) = True"
| "is_num _ = False"

fun the_num :: "fl \<Rightarrow> real" where
  "the_num (Num r) = r"
| "the_num _ = 0"

definition signed_inf :: "bool \<Rightarrow> fl" where
  "signed_inf positive = (if positive then PInf else NInf)"

text \<open>
  Python's \<open>round\<close> on a float with no digits argument: the nearest integer, a tie going
  to the even neighbour.
\<close>

definition py_round :: "real \<Rightarrow> int" where
  "py_round x =
     (let f = \<lfloor>x\<rfloor>; d = x - of_int f
      in if d < 1 / 2 then f
         else if 1 / 2 < d then f + 1
         else if even f then f else f + 1)"

text \<open>
  Rounding to a binary floating-point format with \<open>p\<close> significant bits whose
  smallest positive number is \<open>2\<^sup>-\<^sup>q\<close>: the magnitude, scaled by \<open>2\<^sup>q\<close>, is
  rounded to a multiple of \<open>2\<^sup>e\<close>, where \<open>e\<close> leaves \<open>p\<close> bits (and is \<open>0\<close> in
  the subnormal range); a result of \<open>2\<^sup>w\<close> or more, on the scaled magnitude, is an
  infinity. For binary64 the precision is 53 bits, the smallest number \<open>2\<^sup>-\<^sup>1\<^sup>0\<^sup>7\<^sup>4\<close>,
  and the overflow bound \<open>2\<^sup>1\<^sup>0\<^sup>2\<^sup>4\<close>.
\<close>

definition round_fl :: "nat \<Rightarrow> nat \<Rightarrow> nat \<Rightarrow> real \<Rightarrow> fl" where
  "round_fl p q w x =
     (let y = \<bar>x\<bar> * 2 ^ q;
          e = nat (bitlen \<lfloor>y\<rfloor> - int p);
          r = of_int (py_round (y / 2 ^ e)) * 2 ^ e
      in if (2::real) ^ w \<le> r then signed_inf (0 < x)
         else Num (sgn x * r / 2 ^ q))"

definition round64 :: "real \<Rightarrow> fl" where
  "round64 = round_fl 53 1074 2098"

text \<open>An integer column entering float arithmetic is converted to float64.\<close>

definition fl_of_int :: "int \<Rightarrow> fl" where
  "fl_of_int i = round64 (of_int i)"

fun fl_mult :: "fl \<Rightarrow> fl \<Rightarrow> fl" where
  "fl_mult NaN _ = NaN"
| "fl_mult _ NaN = NaN"
| "fl_mult (Num a) (Num b) = round64 (a * b)"
| "fl_mult (Num a) PInf = (if a = 0 then NaN else signed_inf (0 < a))"
| "fl_mult (Num a) NInf = (if a = 0 then NaN else signed_inf (a < 0))"
| "fl_mult PInf (Num b) = (if b = 0 then NaN else signed_inf (0 < b))"
| "fl_mult NInf (Num b) = (if b = 0 then NaN else signed_inf (b < 0))"
| "fl_mult PInf PInf = PInf"
| "fl_mult PInf NInf = NInf"
| "fl_mult NInf PInf = NInf"
| "fl_mult NInf NInf = PInf"

text \<open>
  Division by a zero takes the zero as positive; \<open>rollup\<close> only divides by values that
  passed the test \<open>SRTOTREG > 0\<close>.
\<close>

fun fl_div :: "fl \<Rightarrow> fl \<Rightarrow> fl" where
  "fl_div NaN _ = NaN"
| "fl_div _ NaN = NaN"
| "fl_div (Num a) (Num b) =
     (if b = 0 then (if a = 0 then NaN else signed_inf (0 < a)) else round64 (a / b))"
| "fl_div (Num a) PInf = Num 0"
| "fl_div (Num a) NInf = Num 0"
| "fl_div PInf (Num b) = signed_inf (0 \<le> b)"
| "fl_div NInf (Num b) = signed_inf (b < 0)"
| "fl_div PInf PInf = NaN"
| "fl_div PInf NInf = NaN"
| "fl_div NInf PInf = NaN"
| "fl_div NInf NInf = NaN"

text \<open>The comparison \<open>x > 0\<close> of a float cell; false on NaN.\<close>

fun fl_gt0 :: "fl \<Rightarrow> bool" where
  "fl_gt0 (Num r) = (0 < r)"
| "fl_gt0 PInf = True"
| "fl_gt0 NInf = False"
| "fl_gt0 NaN = False"

section \<open>Hamilton apportionment\<close>

text \<open>
  A group handed to \<open>hamilton_floor\<close> is a Series whose index labels are distinct; the
  model identifies a label with the position of its element in the group.

  \<open>Series.nlargest(n)\<close> (with the default \<open>keep='first'\<close>) yields the labels of the
  \<open>n\<close> largest values, in descending order of value, equal values in their order of
  appearance; all of them when \<open>n\<close> is at least the length.
\<close>

definition nlargest :: "nat \<Rightarrow> real list \<Rightarrow> nat list" where
  "nlargest n remainder =
     take n (sort_key (\<lambda>i. - (remainder ! i)) [0..<length remainder])"

text \<open>\<open>floored.loc[top_indices] += 1\<close>\<close>

definition loc_add1 :: "nat list \<Rightarrow> int list \<Rightarrow> int list" where
  "loc_add1 top_indices floored =
     map (\<lambda>i. if i \<in> set top_indices then floored ! i + 1 else floored ! i)
       [0..<length floored]"

text \<open>
  \<open>Series.sum\<close> on a float64 series adds the elements in an order that numpy chooses
  and rounds every addition. The order is not part of the repository, so the sum is a
  parameter of the model: a function from the elements to the result. The one series
  that is summed holds numbers from \<open>0\<close> up to \<open>1\<close>, whose float64 sum is finite in
  any order.
\<close>

type_synonym series_sum = "real list \<Rightarrow> real"

text \<open>
  One such function: the additions taken from left to right, each rounded to binary64,
  as numpy takes them on a series of fewer than eight elements.
\<close>

definition seq_sum :: series_sum where
  "seq_sum rs = foldl (\<lambda>s r. the_num (round64 (s + r))) 0 rs"

text \<open>
  \<open>np.floor(values).astype(int)\<close> raises when a value is NaN or infinite; that branch is
  reached by a group that is not all NaN. The cast gives the floor itself when the floor
  lies in the range of int64, which is the range the model covers. The difference
  \<open>values - floored\<close> is a float64 subtraction, and the sum of the remainders is the
  float64 sum.
\<close>

definition hamilton_floor :: "series_sum \<Rightarrow> fl list \<Rightarrow> error + int list" where
  "hamilton_floor series_sum values =
     (if \<forall>v \<in> set values. isna v then Inr (replicate (length values) 0)
      else if \<exists>v \<in> set values. \<not> is_num v then Inl IntCastingNaNError
      else
        let xs = map the_num values;
            floored = map floor xs;
            remainder = map2 (\<lambda>x f. the_num (round64 (x - of_int f))) xs floored;
            n_remaining = py_round (series_sum remainder)
        in if 0 < n_remaining
           then Inr (loc_add1 (nlargest (nat n_remaining) remainder) floored)
           else Inr floored)"

text \<open>
  Two notions used to state what \<open>hamilton_floor\<close> computes: the series
  \<open>remainder\<close> of a group, and the number of elements ranked before element \<open>i\<close>
  when the remainders are ranked in descending order, equal remainders by position.
\<close>

definition remainders :: "real list \<Rightarrow> real list" where
  "remainders xs = map (\<lambda>x. the_num (round64 (x - of_int \<lfloor>x\<rfloor>))) xs"

definition rank_before :: "real list \<Rightarrow> nat \<Rightarrow> nat" where
  "rank_before rs i =
     length (filter (\<lambda>j. rs ! i < rs ! j \<or> (rs ! j = rs ! i \<and> j < i)) [0..<length rs])"

text \<open>A number whose floor lies in the range of int64.\<close>

definition in_int64 :: "real \<Rightarrow> bool" where
  "in_int64 x \<longleftrightarrow> - (2 ^ 63) \<le> \<lfloor>x\<rfloor> \<and> \<lfloor>x\<rfloor> < 2 ^ 63"

section \<open>Tables\<close>

text \<open>
  Identifiers are strings. A row with a missing identifier is not part of a table: the
  constructors of \<open>Blockify\<close> and \<open>Graphify\<close> remove such rows from the conversion
  table, and a vote row with a missing precinct identifier matches no conversion row.
  The vote counts are integers (the constructors cast them with \<open>astype(int)\<close>).
  Strings are compared character by character, a character by its code, as Python
  compares them.
\<close>

record election_row =
  e_SRPREC_KEY :: string
  e_dem :: int
  e_rep :: int

record conversion_row =
  c_SRPREC_KEY :: string
  c_BLOCK_KEY :: string
  c_BLKREG :: fl
  c_SRTOTREG :: fl

text \<open>A row of \<open>merged\<close>; the raw allocations are the two columns added later.\<close>

record merged_row =
  SRPREC_KEY :: string
  BLOCK_KEY :: string
  BLKREG :: fl
  SRTOTREG :: fl
  m_dem :: fl
  m_rep :: fl

record raw_row = merged_row +
  dem_raw :: fl
  rep_raw :: fl

text \<open>
  A row of \<open>merged\<close> once \<open>dem\<close> and \<open>rep\<close> hold the apportioned integers; the float
  columns are not read after that point and are left out.
\<close>

record apportioned_row =
  a_SRPREC_KEY :: string
  a_BLOCK_KEY :: string
  a_dem :: int
  a_rep :: int

text \<open>A row of a returned table: the identifier column and the three counts.\<close>

record vote_row =
  GEOID :: string
  tot :: int
  dem :: int
  rep :: int

section \<open>The allocation pipeline\<close>

text \<open>
  \<open>conversion_df.merge(election_df, on="SRPREC_KEY", how="left")\<close>: the conversion rows
  in their order, each once per matching vote row, or once with missing counts when no
  vote row matches.
\<close>

definition merge_row :: "conversion_row \<Rightarrow> fl \<Rightarrow> fl \<Rightarrow> merged_row" where
  "merge_row c d r =
     \<lparr>SRPREC_KEY = c_SRPREC_KEY c, BLOCK_KEY = c_BLOCK_KEY c, BLKREG = c_BLKREG c,
      SRTOTREG = c_SRTOTREG c, m_dem = d, m_rep = r\<rparr>"

definition matches :: "election_row list \<Rightarrow> conversion_row \<Rightarrow> election_row list" where
  "matches election_df c = filter (\<lambda>e. e_SRPREC_KEY e = c_SRPREC_KEY c) election_df"

definition merge_one :: "election_row list \<Rightarrow> conversion_row \<Rightarrow> merged_row list" where
  "merge_one election_df c =
     (case matches election_df c of
        [] \<Rightarrow> [merge_row c NaN NaN]
      | es \<Rightarrow> map (\<lambda>e. merge_row c (fl_of_int (e_dem e)) (fl_of_int (e_rep e))) es)"

definition merge_left :: "conversion_row list \<Rightarrow> election_row list \<Rightarrow> merged_row list" where
  "merge_left conversion_df election_df = concat (map (merge_one election_df) conversion_df)"

text \<open>\<open>merged.dropna(subset=["BLKREG", "SRTOTREG", "dem", "rep"])\<close>\<close>

definition has_registration :: "merged_row \<Rightarrow> bool" where
  "has_registration m \<longleftrightarrow>
     \<not> isna (BLKREG m) \<and> \<not> isna (SRTOTREG m) \<and> \<not> isna (m_dem m) \<and> \<not> isna (m_rep m)"

text \<open>
  The two raw columns: \<open>dem * BLKREG / SRTOTREG\<close> and \<open>rep * BLKREG / SRTOTREG\<close>, a
  float64 product and a float64 quotient, each rounded (the counts were converted to
  float64 before).
\<close>

definition add_raw :: "merged_row \<Rightarrow> raw_row" where
  "add_raw m =
     \<lparr>SRPREC_KEY = SRPREC_KEY m, BLOCK_KEY = BLOCK_KEY m, BLKREG = BLKREG m,
      SRTOTREG = SRTOTREG m, m_dem = m_dem m, m_rep = m_rep m,
      dem_raw = fl_div (fl_mult (m_dem m) (BLKREG m)) (SRTOTREG m),
      rep_raw = fl_div (fl_mult (m_rep m) (BLKREG m)) (SRTOTREG m)\<rparr>"

text \<open>\<open>merged.replace([np.inf, -np.inf], np.nan)\<close>, on every float column.\<close>

fun replace_inf :: "fl \<Rightarrow> fl" where
  "replace_inf PInf = NaN"
| "replace_inf NInf = NaN"
| "replace_inf v = v"

definition replace_inf_row :: "raw_row \<Rightarrow> raw_row" where
  "replace_inf_row r =
     \<lparr>SRPREC_KEY = SRPREC_KEY r, BLOCK_KEY = BLOCK_KEY r, BLKREG = replace_inf (BLKREG r),
      SRTOTREG = replace_inf (SRTOTREG r), m_dem = replace_inf (m_dem r),
      m_rep = replace_inf (m_rep r),
      dem_raw = replace_inf (dem_raw r), rep_raw = replace_inf (rep_raw r)\<rparr>"

text \<open>\<open>merged.dropna(subset=["dem_raw", "rep_raw"])\<close>\<close>

definition has_raw :: "raw_row \<Rightarrow> bool" where
  "has_raw r \<longleftrightarrow> \<not> isna (dem_raw r) \<and> \<not> isna (rep_raw r)"

text \<open>The frame \<open>merged\<close> as it stands before the Hamilton rounding.\<close>

definition raw_allocations :: "conversion_row list \<Rightarrow> election_row list \<Rightarrow> raw_row list" where
  "raw_allocations conversion_df election_df =
     filter has_raw (map replace_inf_row (map add_raw
       (filter (\<lambda>m. fl_gt0 (SRTOTREG m))
          (filter has_registration (merge_left conversion_df election_df)))))"

text \<open>
  \<open>merged.groupby(key)[column].transform(f)\<close>: \<open>f\<close> is applied to the column's values
  of each group (the rows sharing a key, in row order) and each row receives the element
  of its group's result at its place in the group. An exception raised by \<open>f\<close> leaves
  the transform.
\<close>

definition group_values :: "string list \<Rightarrow> 'a list \<Rightarrow> string \<Rightarrow> 'a list" where
  "group_values keys vals k = map snd (filter (\<lambda>kv. fst kv = k) (zip keys vals))"

fun scatter :: "(string \<Rightarrow> 'b list) \<Rightarrow> string list \<Rightarrow> 'b list" where
  "scatter res [] = []"
| "scatter res (k # ks) = hd (res k) # scatter (res(k := tl (res k))) ks"

definition groupby_transform ::
  "(fl list \<Rightarrow> error + int list) \<Rightarrow> string list \<Rightarrow> fl list \<Rightarrow> error + int list" where
  "groupby_transform f keys vals =
     (if \<exists>k \<in> set keys. isl (f (group_values keys vals k)) then Inl IntCastingNaNError
      else Inr (scatter (\<lambda>k. projr (f (group_values keys vals k))) keys))"

text \<open>The frame \<open>merged\<close> after both transforms.\<close>

definition apportion ::
  "series_sum \<Rightarrow> conversion_row list \<Rightarrow> election_row list
     \<Rightarrow> error + apportioned_row list" where
  "apportion series_sum conversion_df election_df =
     (let merged = raw_allocations conversion_df election_df;
          keys = map SRPREC_KEY merged
      in case groupby_transform (hamilton_floor series_sum) keys (map dem_raw merged) of
           Inl e \<Rightarrow> Inl e
         | Inr ds \<Rightarrow>
             (case groupby_transform (hamilton_floor series_sum) keys (map rep_raw merged) of
                Inl e \<Rightarrow> Inl e
              | Inr rs \<Rightarrow>
                  Inr (map (\<lambda>(m, d, r).
                         \<lparr>a_SRPREC_KEY = SRPREC_KEY m, a_BLOCK_KEY = BLOCK_KEY m,
                          a_dem = d, a_rep = r\<rparr>)
                       (zip merged (zip ds rs)))))"

section \<open>Aggregation\<close>

text \<open>
  \<open>df.groupby(key)[["dem", "rep"]].sum().reset_index()\<close> followed by
  \<open>tot = dem + rep\<close>: one row per distinct key, in ascending order of the key.
\<close>

definition groupby_sum ::
  "('a \<Rightarrow> string) \<Rightarrow> ('a \<Rightarrow> int) \<Rightarrow> ('a \<Rightarrow> int) \<Rightarrow> 'a list \<Rightarrow> vote_row list" where
  "groupby_sum key d r rows =
     map (\<lambda>k. let g = filter (\<lambda>x. key x = k) rows;
                  ds = sum_list (map d g);
                  rs = sum_list (map r g)
              in \<lparr>GEOID = k, tot = ds + rs, dem = ds, rep = rs\<rparr>)
       (sort (remdups (map key rows)))"

text \<open>
  \<open>s.str[-1] != "0"\<close>: the last character of a string differs from \<open>'0'\<close>; the empty
  string has no last character and passes the test.
\<close>

definition last_is_not_0 :: "string \<Rightarrow> bool" where
  "last_is_not_0 s \<longleftrightarrow> s = [] \<or> last s \<noteq> CHR ''0''"

text \<open>
  \<open>block_df\<close>: the block-level sums without the water-only blocks, sorted by
  \<open>BLOCK_KEY\<close>. The parameter is the length of the prefix whose last character is
  tested (12 in \<open>Blockify\<close> and \<open>Graphify\<close>, 11 in \<open>Cultivate\<close>).
\<close>

definition block_frame :: "nat \<Rightarrow> apportioned_row list \<Rightarrow> vote_row list" where
  "block_frame n merged =
     sort_key GEOID
       (filter (\<lambda>b. last_is_not_0 (take n (GEOID b)))
          (groupby_sum a_BLOCK_KEY a_dem a_rep merged))"

text \<open>The final grouping by a prefix of \<open>BLOCK_KEY\<close>, sorted by the identifier.\<close>

definition aggregate :: "nat \<Rightarrow> vote_row list \<Rightarrow> vote_row list" where
  "aggregate n block_df =
     sort_key GEOID (groupby_sum (\<lambda>b. take n (GEOID b)) dem rep block_df)"

section \<open>The three entry points\<close>

text \<open>
  \<open>Blockify.rollup\<close>; its argument \<open>race\<close> is not read by the body. A returned table
  is modelled by its rows, whatever the name of the identifier column.
\<close>

definition rollup ::
  "series_sum \<Rightarrow> conversion_row list \<Rightarrow> election_row list \<Rightarrow> string
     \<Rightarrow> error + vote_row list" where
  "rollup series_sum conversion_df election_df level =
     (case apportion series_sum conversion_df election_df of
        Inl e \<Rightarrow> Inl e
      | Inr merged \<Rightarrow>
          let block_df = block_frame 12 merged
          in if level = ''block'' then Inr block_df
             else if level = ''blockgroup'' then Inr (aggregate 12 block_df)
             else if level = ''tract'' then Inr (aggregate 11 block_df)
             else if level = ''county'' then Inr (aggregate 5 block_df)
             else Inl ValueError)"

text \<open>
  \<open>Graphify.blockify\<close>: at level \<open>block\<close> the identifier column is a copy of
  \<open>BLOCK_KEY\<close>.
\<close>

definition graphify_blockify ::
  "series_sum \<Rightarrow> conversion_row list \<Rightarrow> election_row list \<Rightarrow> string
     \<Rightarrow> error + vote_row list" where
  "graphify_blockify series_sum conversion_df election_df level =
     (case apportion series_sum conversion_df election_df of
        Inl e \<Rightarrow> Inl e
      | Inr merged \<Rightarrow>
          let block_df = block_frame 12 merged
          in if level = ''block'' then Inr block_df
             else if level = ''blockgroup'' then Inr (aggregate 12 block_df)
             else if level = ''tract'' then Inr (aggregate 11 block_df)
             else if level = ''county'' then Inr (aggregate 5 block_df)
             else Inl ValueError)"

text \<open>
  \<open>Cultivate.blockify\<close>: the prefix has 11 characters, and \<open>blockgroup\<close> is the only
  level it accepts. The block identifiers are the strings that \<open>astype(str)\<close> gives:
  \<open>Cultivate\<close> loads its tables without a string type for the identifier column, so
  a 15-character identifier with a leading \<open>0\<close> is held as the 14-character string
  without it, and the first 11 characters of that string are the 12-character
  block-group code without its leading \<open>0\<close> (\<open>Cultivate.graphify\<close> puts the \<open>0\<close>
  back).
\<close>

definition cultivate_blockify ::
  "series_sum \<Rightarrow> conversion_row list \<Rightarrow> election_row list \<Rightarrow> string
     \<Rightarrow> error + vote_row list" where
  "cultivate_blockify series_sum conversion_df election_df level =
     (case apportion series_sum conversion_df election_df of
        Inl e \<Rightarrow> Inl e
      | Inr merged \<Rightarrow>
          let block_df = block_frame 11 merged
          in if level = ''blockgroup'' then Inr (aggregate 11 block_df)
             else Inl ValueError)"

section \<open>Notions used in the statements\<close>

text \<open>
  The results of the two transforms, group by group, and the frame they give: every raw
  allocation is finite (shown below), so the rounding of a group never fails and
  \<open>apportion\<close> returns this frame.
\<close>

definition dem_groups :: "series_sum \<Rightarrow> raw_row list \<Rightarrow> string \<Rightarrow> int list" where
  "dem_groups series_sum merged =
     (\<lambda>k. projr (hamilton_floor series_sum (map dem_raw (filter (\<lambda>r. SRPREC_KEY r = k) merged))))"

definition rep_groups :: "series_sum \<Rightarrow> raw_row list \<Rightarrow> string \<Rightarrow> int list" where
  "rep_groups series_sum merged =
     (\<lambda>k. projr (hamilton_floor series_sum (map rep_raw (filter (\<lambda>r. SRPREC_KEY r = k) merged))))"

definition apportioned :: "series_sum \<Rightarrow> raw_row list \<Rightarrow> apportioned_row list" where
  "apportioned series_sum merged =
     map (\<lambda>(m, d, r). \<lparr>a_SRPREC_KEY = SRPREC_KEY m, a_BLOCK_KEY = BLOCK_KEY m,
                        a_dem = d, a_rep = r\<rparr>)
       (zip merged (zip (scatter (dem_groups series_sum merged) (map SRPREC_KEY merged))
                        (scatter (rep_groups series_sum merged) (map SRPREC_KEY merged))))"

text \<open>
  The levels named by the documentation of the entry points; the invariants of the data
  model (counts and finite weights are not negative); the raw allocation of a count to a
  conversion row; and the rows the pipeline drops: no vote row matches, the total
  registration is missing or not positive, or every match gives a raw allocation that is
  not finite for one of the two choices.
\<close>

definition valid_levels :: "string set" where
  "valid_levels = {''block'', ''blockgroup'', ''tract'', ''county''}"






text \<open>
  The sentinel test on the code of length \<open>m\<close> that encloses a sub-unit; the target
  identifier of a sub-unit at a level of \<open>Blockify\<close> and \<open>Graphify\<close>, and the
  prefix length of the three coarser levels; the aggregation taken directly from the
  apportioned rows (the rows outside the sentinel geography, grouped by the prefix of
  their sub-unit identifier, the counts summed); the 15-character identifier of a
  sub-unit that \<open>Cultivate\<close> holds without its leading \<open>0\<close>; and a row of a result
  that stems from sub-units outside the sentinel geography and sums their counts only,
  where \<open>ident\<close> gives the identifier of a sub-unit from the string held for it and
  \<open>h\<close> the target identifier.
\<close>

definition sentinel :: "nat \<Rightarrow> string \<Rightarrow> bool" where
  "sentinel m k \<longleftrightarrow> take m k \<noteq> [] \<and> last (take m k) = CHR ''0''"

definition level_key :: "string \<Rightarrow> string \<Rightarrow> string" where
  "level_key level k =
     (if level = ''blockgroup'' then take 12 k
      else if level = ''tract'' then take 11 k
      else if level = ''county'' then take 5 k
      else k)"

definition level_prefix :: "string \<Rightarrow> nat option" where
  "level_prefix level =
     (if level = ''blockgroup'' then Some 12
      else if level = ''tract'' then Some 11
      else if level = ''county'' then Some 5
      else None)"

definition direct_aggregate :: "nat \<Rightarrow> nat \<Rightarrow> apportioned_row list \<Rightarrow> vote_row list" where
  "direct_aggregate m n A =
     groupby_sum (\<lambda>a. take n (a_BLOCK_KEY a)) a_dem a_rep
       (filter (\<lambda>a. \<not> sentinel m (a_BLOCK_KEY a)) A)"

definition with_leading_0 :: "string \<Rightarrow> string" where
  "with_leading_0 k = CHR ''0'' # k"

definition from_unexcluded ::
  "(string \<Rightarrow> string) \<Rightarrow> (string \<Rightarrow> string) \<Rightarrow> apportioned_row list \<Rightarrow> vote_row
     \<Rightarrow> bool" where
  "from_unexcluded ident h A t \<longleftrightarrow>
     (\<exists>a \<in> set A. \<not> sentinel 12 (ident (a_BLOCK_KEY a)) \<and> GEOID t = h (a_BLOCK_KEY a))
     \<and> dem t = sum_list (map a_dem
         (filter (\<lambda>a. \<not> sentinel 12 (ident (a_BLOCK_KEY a)) \<and> h (a_BLOCK_KEY a) = GEOID t)
            A))
     \<and> rep t = sum_list (map a_rep
         (filter (\<lambda>a. \<not> sentinel 12 (ident (a_BLOCK_KEY a)) \<and> h (a_BLOCK_KEY a) = GEOID t)
            A))"

section \<open>Evaluation on concrete tables\<close>

text \<open>The definitions that the simplifier unfolds to run the model on a given input.\<close>

lemmas pipeline_defs =
  raw_allocations_def merge_left_def merge_one_def matches_def merge_row_def
  has_registration_def add_raw_def replace_inf_row_def has_raw_def fl_of_int_def
  signed_inf_def apportioned_def dem_groups_def rep_groups_def
  hamilton_floor_def py_round_def Let_def nlargest_def loc_add1_def seq_sum_def

lemmas aggregation_defs =
  block_frame_def aggregate_def groupby_sum_def last_is_not_0_def

section \<open>Rounding\<close>

subsection \<open>To the nearest integer\<close>

lemma py_round_of_int: "py_round (of_int k) = k"
  by (simp add: py_round_def)


lemma py_round_le:
  assumes "x \<le> of_int n"
  shows "py_round x \<le> n"
proof (cases "x = of_int n")
  case True
  then show ?thesis by (simp add: py_round_of_int)
next
  case False
  with assms have "x < of_int n" by simp
  then have "\<lfloor>x\<rfloor> < n" by (simp add: floor_less_iff)
  then show ?thesis unfolding py_round_def Let_def by auto
qed

lemma py_round_ge:
  assumes "of_int n \<le> x"
  shows "n \<le> py_round x"
proof -
  from assms have "n \<le> \<lfloor>x\<rfloor>" by (simp add: le_floor_iff)
  then show ?thesis unfolding py_round_def Let_def by auto
qed


subsection \<open>To binary64\<close>



lemma round_fl_exact:
  assumes "\<bar>m\<bar> < 2 ^ p" and "j \<le> q" and "p + q \<le> w"
  shows "round_fl p q w (of_int m / 2 ^ j) = Num (of_int m / 2 ^ j)"
proof (cases "m = 0")
  case True
  have "\<not> (2::real) ^ w \<le> 0" by (simp add: not_le)
  with True show ?thesis by (simp add: round_fl_def Let_def py_round_def)
next
  case False
  define x where "x = real_of_int m / 2 ^ j"
  define Y where "Y = \<bar>m\<bar> * 2 ^ (q - j)"
  define e where "e = nat (bitlen Y - int p)"
  have pow: "(2::real) ^ q = 2 ^ j * 2 ^ (q - j)"
    using assms(2) by (simp flip: power_add)
  have y: "\<bar>x\<bar> * 2 ^ q = real_of_int Y"
    by (simp add: pow x_def Y_def)
  have pos: "0 < \<bar>m\<bar>" using False by simp
  have bl: "bitlen Y = bitlen \<bar>m\<bar> + int (q - j)"
    unfolding Y_def using bitlen_pow2 [OF pos] by simp
  have "bitlen \<bar>m\<bar> \<le> int p"
    using assms(1) by (simp add: bitlen_le_iff_power)
  then have e: "e \<le> q - j"
    by (simp add: bl e_def)
  define K where "K = \<bar>m\<bar> * 2 ^ (q - j - e)"
  have split: "(2::int) ^ (q - j) = 2 ^ (q - j - e) * 2 ^ e"
    using e by (simp flip: power_add)
  have YK: "Y = K * 2 ^ e"
    unfolding K_def Y_def by (simp add: split)
  have q: "real_of_int Y / 2 ^ e = real_of_int K"
    by (simp add: YK)
  have r: "real_of_int (py_round (real_of_int Y / 2 ^ e)) * 2 ^ e = real_of_int Y"
    by (simp only: q py_round_of_int) (simp add: YK)
  have "real_of_int \<bar>m\<bar> < real_of_int (2 ^ p)"
    using assms(1) by (simp only: of_int_less_iff)
  then have "real_of_int \<bar>m\<bar> < 2 ^ p"
    by simp
  then have "real_of_int Y < 2 ^ p * 2 ^ (q - j)"
    by (simp add: Y_def)
  also have "\<dots> = (2::real) ^ (p + (q - j))" by (simp add: power_add)
  also have "\<dots> \<le> (2::real) ^ w"
    using assms(3) by (intro power_increasing) simp_all
  finally have small: "\<not> (2::real) ^ w \<le> real_of_int Y" by simp
  have "sgn x * real_of_int Y / 2 ^ q = x"
  proof -
    have "sgn x * real_of_int Y = sgn x * (\<bar>x\<bar> * 2 ^ q)" by (simp only: y)
    also have "\<dots> = x * 2 ^ q" by (simp add: sgn_if)
    finally show ?thesis by simp
  qed
  with small r have "round_fl p q w x = Num x"
    unfolding round_fl_def Let_def y floor_of_int e_def [symmetric] by simp
  then show ?thesis by (simp only: x_def)
qed

lemma round_fl_normal:
  assumes "2 ^ (p - 1) \<le> \<bar>x\<bar> * 2 ^ s" "\<bar>x\<bar> * 2 ^ s < 2 ^ p" "s \<le> q" "p + q < w" "0 < p"
  shows "round_fl p q w x = Num (sgn x * of_int (py_round (\<bar>x\<bar> * 2 ^ s)) / 2 ^ s)"
proof -
  define y where "y = \<bar>x\<bar> * 2 ^ q"
  define k where "k = py_round (\<bar>x\<bar> * 2 ^ s)"
  have pow: "(2::real) ^ q = 2 ^ s * 2 ^ (q - s)"
    using assms(3) by (simp flip: power_add)
  have yq: "y = \<bar>x\<bar> * 2 ^ s * 2 ^ (q - s)"
    by (simp add: y_def pow)
  have lo: "(2::real) ^ (p - 1) * 2 ^ (q - s) \<le> y"
    unfolding yq using assms(1) by (intro mult_right_mono) simp_all
  have hi: "y < (2::real) ^ p * 2 ^ (q - s)"
    unfolding yq using assms(2) by (intro mult_strict_right_mono) simp_all
  have "real_of_int (2 ^ (p - 1 + (q - s))) \<le> y"
    using lo by (simp add: power_add)
  then have lo': "(2::int) ^ (p - 1 + (q - s)) \<le> \<lfloor>y\<rfloor>"
    by (simp only: le_floor_iff)
  have "y < real_of_int (2 ^ (p + (q - s)))"
    using hi by (simp add: power_add)
  then have hi': "\<lfloor>y\<rfloor> < (2::int) ^ (p + (q - s))"
    by (simp only: floor_less_iff)
  have "bitlen \<lfloor>y\<rfloor> \<le> int (p + (q - s))"
    using hi' by (simp only: bitlen_le_iff_power nat_int) simp
  moreover have "int (p + (q - s)) \<le> bitlen \<lfloor>y\<rfloor>"
  proof -
    have "nat (int (p + (q - s))) - 1 = p - 1 + (q - s)"
      using assms(5) by simp
    with lo' show ?thesis by (simp only: bitlen_ge_iff_power) simp
  qed
  ultimately have "bitlen \<lfloor>y\<rfloor> = int (p + (q - s))" by simp
  then have e: "nat (bitlen \<lfloor>y\<rfloor> - int p) = q - s" by simp
  have q: "y / 2 ^ (q - s) = \<bar>x\<bar> * 2 ^ s"
    by (simp add: yq)
  have "\<bar>x\<bar> * 2 ^ s \<le> real_of_int (2 ^ p)"
    using assms(2) by simp
  then have "k \<le> 2 ^ p"
    unfolding k_def by (rule py_round_le)
  then have "real_of_int k \<le> real_of_int (2 ^ p)"
    by (simp only: of_int_le_iff)
  then have "real_of_int k \<le> 2 ^ p"
    by simp
  then have "real_of_int k * 2 ^ (q - s) \<le> 2 ^ p * 2 ^ (q - s)"
    by (intro mult_right_mono) simp_all
  also have "\<dots> = (2::real) ^ (p + (q - s))" by (simp add: power_add)
  also have "\<dots> < (2::real) ^ Suc (p + q)"
    by (intro power_strict_increasing) simp_all
  finally have "real_of_int k * 2 ^ (q - s) < (2::real) ^ Suc (p + q)" .
  moreover have "(2::real) ^ Suc (p + q) \<le> 2 ^ w"
    using assms(4) by (intro power_increasing) simp_all
  ultimately have small: "\<not> (2::real) ^ w \<le> real_of_int k * 2 ^ (q - s)"
    by simp
  have fin: "sgn x * (real_of_int k * 2 ^ (q - s)) / 2 ^ q = sgn x * real_of_int k / 2 ^ s"
    by (simp add: pow)
  have "round_fl p q w x = Num (sgn x * (real_of_int k * 2 ^ (q - s)) / 2 ^ q)"
    using small
    unfolding round_fl_def Let_def y_def [symmetric] e q k_def [symmetric] by simp
  then have "round_fl p q w x = Num (sgn x * real_of_int k / 2 ^ s)"
    by (simp only: fin)
  then show ?thesis
    by (simp only: k_def)
qed

lemma round_fl_large:
  assumes "2 ^ (p - 1) \<le> \<bar>x\<bar> / 2 ^ s" "\<bar>x\<bar> / 2 ^ s < 2 ^ p" "p + s + q < w" "0 < p"
  shows "round_fl p q w x = Num (sgn x * of_int (py_round (\<bar>x\<bar> / 2 ^ s)) * 2 ^ s)"
proof -
  define y where "y = \<bar>x\<bar> * 2 ^ q"
  define k where "k = py_round (\<bar>x\<bar> / 2 ^ s)"
  have yq: "y = \<bar>x\<bar> / 2 ^ s * 2 ^ (s + q)"
    by (simp add: y_def power_add)
  have lo: "(2::real) ^ (p - 1) * 2 ^ (s + q) \<le> y"
    unfolding yq using assms(1) by (intro mult_right_mono) simp_all
  have hi: "y < (2::real) ^ p * 2 ^ (s + q)"
    unfolding yq using assms(2) by (intro mult_strict_right_mono) simp_all
  have "real_of_int (2 ^ (p - 1 + (s + q))) \<le> y"
    using lo by (simp add: power_add)
  then have lo': "(2::int) ^ (p - 1 + (s + q)) \<le> \<lfloor>y\<rfloor>"
    by (simp only: le_floor_iff)
  have "y < real_of_int (2 ^ (p + (s + q)))"
    using hi by (simp add: power_add)
  then have hi': "\<lfloor>y\<rfloor> < (2::int) ^ (p + (s + q))"
    by (simp only: floor_less_iff)
  have "bitlen \<lfloor>y\<rfloor> \<le> int (p + (s + q))"
    using hi' by (simp only: bitlen_le_iff_power nat_int) simp
  moreover have "int (p + (s + q)) \<le> bitlen \<lfloor>y\<rfloor>"
  proof -
    have "nat (int (p + (s + q))) - 1 = p - 1 + (s + q)"
      using assms(4) by simp
    with lo' show ?thesis by (simp only: bitlen_ge_iff_power) simp
  qed
  ultimately have "bitlen \<lfloor>y\<rfloor> = int (p + (s + q))" by simp
  then have e: "nat (bitlen \<lfloor>y\<rfloor> - int p) = s + q" by simp
  have q: "y / 2 ^ (s + q) = \<bar>x\<bar> / 2 ^ s"
    by (simp add: yq)
  have "\<bar>x\<bar> / 2 ^ s \<le> real_of_int (2 ^ p)"
    using assms(2) by simp
  then have "k \<le> 2 ^ p"
    unfolding k_def by (rule py_round_le)
  then have "real_of_int k \<le> real_of_int (2 ^ p)"
    by (simp only: of_int_le_iff)
  then have "real_of_int k \<le> 2 ^ p"
    by simp
  then have "real_of_int k * 2 ^ (s + q) \<le> 2 ^ p * 2 ^ (s + q)"
    by (intro mult_right_mono) simp_all
  also have "\<dots> = (2::real) ^ (p + (s + q))" by (simp add: power_add)
  also have "\<dots> < (2::real) ^ w"
    using assms(3) by (intro power_strict_increasing) simp_all
  finally have small: "\<not> (2::real) ^ w \<le> real_of_int k * 2 ^ (s + q)"
    by simp
  have fin: "sgn x * (real_of_int k * 2 ^ (s + q)) / 2 ^ q = sgn x * real_of_int k * 2 ^ s"
    by (simp add: power_add)
  have "round_fl p q w x = Num (sgn x * (real_of_int k * 2 ^ (s + q)) / 2 ^ q)"
    using small
    unfolding round_fl_def Let_def y_def [symmetric] e q k_def [symmetric] by simp
  then have "round_fl p q w x = Num (sgn x * real_of_int k * 2 ^ s)"
    by (simp only: fin)
  then show ?thesis
    by (simp only: k_def)
qed

lemma round_fl_overflow:
  assumes "2 ^ w \<le> \<bar>x\<bar> * 2 ^ q" "0 < p"
  shows "round_fl p q w x = signed_inf (0 < x)"
proof -
  define y where "y = \<bar>x\<bar> * 2 ^ q"
  define e where "e = nat (bitlen \<lfloor>y\<rfloor> - int p)"
  define k where "k = py_round (y / 2 ^ e)"
  have y: "(2::real) ^ w \<le> y" using assms(1) by (simp add: y_def)
  have "2 ^ w \<le> real_of_int k * 2 ^ e"
  proof (cases "e \<le> w")
    case True
    then have pw: "(2::real) ^ w = 2 ^ (w - e) * 2 ^ e"
      by (simp flip: power_add)
    have "real_of_int (2 ^ (w - e)) * 2 ^ e \<le> y"
      using y by (simp add: pw)
    then have "real_of_int (2 ^ (w - e)) \<le> y / 2 ^ e"
      by (simp add: pos_le_divide_eq)
    then have "2 ^ (w - e) \<le> k"
      unfolding k_def by (rule py_round_ge)
    then have "real_of_int (2 ^ (w - e)) \<le> real_of_int k"
      by (simp only: of_int_le_iff)
    then have "real_of_int (2 ^ (w - e)) * 2 ^ e \<le> real_of_int k * 2 ^ e"
      by (intro mult_right_mono) simp_all
    then show ?thesis by (simp add: pw)
  next
    case False
    then have ew: "w < e" by simp
    then have epos: "0 < e" by simp
    have bl: "bitlen \<lfloor>y\<rfloor> = int e + int p"
      using epos by (simp add: e_def)
    have blpos: "\<not> bitlen \<lfloor>y\<rfloor> \<le> 0" using bl epos by simp
    have "nat (bitlen \<lfloor>y\<rfloor>) - 1 = e + p - 1"
      using bl by simp
    then have "(2::int) ^ (e + p - 1) \<le> \<lfloor>y\<rfloor>"
      using bitlen_ge_iff_power [of "bitlen \<lfloor>y\<rfloor>" "\<lfloor>y\<rfloor>"] blpos by simp
    then have "real_of_int (2 ^ (e + p - 1)) \<le> y"
      by (simp only: le_floor_iff)
    moreover have "(2::real) ^ (e + p - 1) = 2 ^ (p - 1) * 2 ^ e"
      using assms(2) by (simp flip: power_add)
    ultimately have "real_of_int (2 ^ (p - 1)) * 2 ^ e \<le> y"
      by simp
    then have "real_of_int (2 ^ (p - 1)) \<le> y / 2 ^ e"
      by (simp add: pos_le_divide_eq)
    then have "2 ^ (p - 1) \<le> k"
      unfolding k_def by (rule py_round_ge)
    moreover have "(1::int) \<le> 2 ^ (p - 1)" by simp
    ultimately have "1 \<le> k" by linarith
    then have "real_of_int 1 \<le> real_of_int k"
      by (simp only: of_int_le_iff)
    then have "1 * (2::real) ^ e \<le> real_of_int k * 2 ^ e"
      by (intro mult_right_mono) simp_all
    then have a: "(2::real) ^ e \<le> real_of_int k * 2 ^ e"
      by (simp only: mult_1)
    have b: "(2::real) ^ w \<le> 2 ^ e"
      using ew by (intro power_increasing) simp_all
    from b a show ?thesis by (rule order_trans)
  qed
  then show ?thesis
    by (simp add: round_fl_def Let_def y_def [symmetric] e_def [symmetric] k_def [symmetric])
qed



lemma round64_exact:
  assumes "\<bar>m\<bar> < 2 ^ 53" and "j \<le> 1074"
  shows "round64 (of_int m / 2 ^ j) = Num (of_int m / 2 ^ j)"
  unfolding round64_def using assms by (intro round_fl_exact) simp_all

lemma round64_normal:
  assumes "2 ^ 52 \<le> \<bar>x\<bar> * 2 ^ s" "\<bar>x\<bar> * 2 ^ s < 2 ^ 53" "s \<le> 1074"
  shows "round64 x = Num (sgn x * of_int (py_round (\<bar>x\<bar> * 2 ^ s)) / 2 ^ s)"
  unfolding round64_def using assms by (intro round_fl_normal) simp_all

lemma round64_large:
  assumes "2 ^ 52 \<le> \<bar>x\<bar> / 2 ^ s" "\<bar>x\<bar> / 2 ^ s < 2 ^ 53" "s < 971"
  shows "round64 x = Num (sgn x * of_int (py_round (\<bar>x\<bar> / 2 ^ s)) * 2 ^ s)"
  unfolding round64_def using assms by (intro round_fl_large) simp_all

lemma round64_overflow:
  assumes "2 ^ 1024 \<le> \<bar>x\<bar>"
  shows "round64 x = signed_inf (0 < x)"
proof -
  have "(2::real) ^ 2098 = 2 ^ 1024 * 2 ^ 1074"
    by (simp flip: power_add)
  also have "\<dots> \<le> \<bar>x\<bar> * 2 ^ 1074"
    using assms by (intro mult_right_mono) simp_all
  finally show ?thesis
    unfolding round64_def by (intro round_fl_overflow) simp_all
qed

lemma round64_int: "\<bar>m\<bar> < 2 ^ 53 \<Longrightarrow> round64 (of_int m) = Num (of_int m)"
  using round64_exact [of m 0] by simp

text \<open>Rounding leaves the small integers and their halves as they are.\<close>

lemma round64_0: "round64 0 = Num 0"
  using round64_int [of 0] by simp

lemma round64_1: "round64 1 = Num 1"
  using round64_int [of 1] by simp

lemma round64_numeral:
  "(numeral w :: int) < 2 ^ 53 \<Longrightarrow> round64 (numeral w) = Num (numeral w)"
  using round64_int [of "numeral w"] by simp

lemma round64_neg_numeral:
  "(numeral w :: int) < 2 ^ 53 \<Longrightarrow> round64 (- numeral w) = Num (- numeral w)"
  using round64_int [of "- numeral w"] by simp

lemma round64_half: "round64 (1 / 2) = Num (1 / 2)"
  using round64_exact [of 1 1] by simp

lemma round64_numeral_half:
  "(numeral w :: int) < 2 ^ 53 \<Longrightarrow> round64 (numeral w / 2) = Num (numeral w / 2)"
  using round64_exact [of "numeral w" 1] by simp

lemma round64_neg_numeral_half:
  "(numeral w :: int) < 2 ^ 53 \<Longrightarrow> round64 (- (numeral w / 2)) = Num (- (numeral w / 2))"
  using round64_exact [of "- numeral w" 1] by simp

lemmas round64_eval =
  round64_0 round64_1 round64_numeral round64_neg_numeral round64_half round64_numeral_half
  round64_neg_numeral_half

section \<open>Properties of the Hamilton rounding\<close>

subsection \<open>Selecting the largest remainders\<close>

lemma nlargest_distinct: "distinct (nlargest n rs)"
  by (simp add: nlargest_def)

lemma nlargest_set: "set (nlargest n rs) \<subseteq> {0..<length rs}"
proof -
  have "set (take n (sort_key (\<lambda>i. - (rs ! i)) [0..<length rs]))
          \<subseteq> set (sort_key (\<lambda>i. - (rs ! i)) [0..<length rs])"
    by (rule set_take_subset)
  then show ?thesis by (simp add: nlargest_def)
qed

lemma nlargest_length: "length (nlargest n rs) = min n (length rs)"
  by (simp add: nlargest_def min.commute)

lemma nlargest_card: "card (set (nlargest n rs)) = min n (length rs)"
  using distinct_card [OF nlargest_distinct, of n rs] by (simp add: nlargest_length)

lemma loc_add1_length: "length (loc_add1 idx fs) = length fs"
  by (simp add: loc_add1_def)

lemma loc_add1_nth:
  "i < length fs \<Longrightarrow> loc_add1 idx fs ! i = (if i \<in> set idx then fs ! i + 1 else fs ! i)"
  by (simp add: loc_add1_def)



subsection \<open>Remainders\<close>

lemma remainders_length: "length (remainders xs) = length xs"
  by (simp add: remainders_def)





lemma hamilton_floor_nums:
  "hamilton_floor series_sum (map Num xs) =
     Inr (loc_add1 (nlargest (nat (py_round (series_sum (remainders xs)))) (remainders xs))
            (map floor xs))"
proof -
  let ?d = "py_round (series_sum (remainders xs))"
  have vals: "map the_num (map Num xs) = xs" by (induction xs) simp_all
  have rems: "map2 (\<lambda>x f. the_num (round64 (x - of_int f))) xs (map floor xs) = remainders xs"
    by (simp add: remainders_def zip_map2 zip_same_conv_map o_def)
  have id: "loc_add1 [] (map floor xs) = map floor xs"
  proof -
    have "loc_add1 [] (map floor xs)
        = map (\<lambda>i. map floor xs ! i) [0..<length (map floor xs)]"
      by (simp add: loc_add1_def)
    also have "\<dots> = map floor xs" by (rule map_nth)
    finally show ?thesis .
  qed
  show ?thesis
  proof (cases xs)
    case Nil
    then show ?thesis by (simp add: hamilton_floor_def loc_add1_def)
  next
    case (Cons y ys)
    then have ne: "\<not> (\<forall>v \<in> set (map Num xs). isna v)"
      and fin: "\<not> (\<exists>v \<in> set (map Num xs). \<not> is_num v)"
      by auto
    show ?thesis
    proof (cases "0 < ?d")
      case True
      with ne fin show ?thesis
        unfolding hamilton_floor_def Let_def vals rems by simp
    next
      case False
      then have "nlargest (nat ?d) (remainders xs) = []" by (simp add: nlargest_def)
      with False ne fin id show ?thesis
        unfolding hamilton_floor_def Let_def vals rems by simp
    qed
  qed
qed

lemma hamilton_floor_nums_length:
  "hamilton_floor series_sum (map Num xs) = Inr out \<Longrightarrow> length out = length xs"
  by (auto simp: hamilton_floor_nums loc_add1_length)



lemma hamilton_floor_nums_total: "\<exists>out. hamilton_floor series_sum (map Num xs) = Inr out"
  by (simp add: hamilton_floor_nums)

subsection \<open>The order of selection\<close>

lemma sorted_filter_upt: "sorted_wrt (<) (filter P [0..<n])"
  by (rule sorted_wrt_filter) simp

lemma stable_prefix_set:
  fixes f :: "nat \<Rightarrow> real"
  assumes ys: "sort_key f [0..<n] = as @ x # bs"
  shows "set as = {j. j < n \<and> (f j < f x \<or> (f j = f x \<and> j < x))}"
proof -
  let ?ys = "sort_key f [0..<n]"
  have dist: "distinct (as @ x # bs)"
    using ys [symmetric] by simp
  have "set (sort_key f [0..<n]) = {0..<n}" by simp
  then have seteq: "set (as @ x # bs) = {0..<n}" by (simp only: ys)
  have mem: "\<And>j. j < n \<longleftrightarrow> j \<in> set as \<or> j = x \<or> j \<in> set bs"
  proof -
    fix j
    have "j \<in> set (as @ x # bs) \<longleftrightarrow> j \<in> {0..<n}" by (simp only: seteq)
    then show "j < n \<longleftrightarrow> j \<in> set as \<or> j = x \<or> j \<in> set bs" by auto
  qed
  have srt: "sorted (map f (as @ x # bs))"
    using sorted_sort_key [of f "[0..<n]"] ys by simp
  have le_as: "\<And>a. a \<in> set as \<Longrightarrow> f a \<le> f x"
    using srt by (auto simp: sorted_append)
  have ge_bs: "\<And>b. b \<in> set bs \<Longrightarrow> f x \<le> f b"
    using srt by (auto simp: sorted_append)
  have "filter (\<lambda>y. f y = f x) (as @ x # bs) = filter (\<lambda>y. f y = f x) [0..<n]"
    using sort_key_stable [of f "f x" "[0..<n]"] ys by simp
  then have "sorted_wrt (<) (filter (\<lambda>y. f y = f x) (as @ x # bs))"
    by (simp only: sorted_filter_upt)
  then have st: "sorted_wrt (<) (filter (\<lambda>y. f y = f x) as @ x # filter (\<lambda>y. f y = f x) bs)"
    by simp
  have lt_as: "\<And>a. a \<in> set as \<Longrightarrow> f a = f x \<Longrightarrow> a < x"
    using st by (auto simp: sorted_wrt_append)
  have gt_bs: "\<And>b. b \<in> set bs \<Longrightarrow> f b = f x \<Longrightarrow> x < b"
    using st by (auto simp: sorted_wrt_append)
  show ?thesis
  proof (intro set_eqI iffI)
    fix j assume j: "j \<in> set as"
    then have "j < n" using mem [of j] by simp
    moreover have "f j < f x \<or> (f j = f x \<and> j < x)"
      using le_as [OF j] lt_as [OF j] by (cases "f j = f x") auto
    ultimately show "j \<in> {j. j < n \<and> (f j < f x \<or> (f j = f x \<and> j < x))}" by simp
  next
    fix j assume "j \<in> {j. j < n \<and> (f j < f x \<or> (f j = f x \<and> j < x))}"
    then have jn: "j < n" and c: "f j < f x \<or> (f j = f x \<and> j < x)" by auto
    from jn have "j \<in> set as \<or> j = x \<or> j \<in> set bs" using mem [of j] by simp
    moreover have "j \<noteq> x" using c by auto
    moreover have "j \<notin> set bs"
    proof
      assume b: "j \<in> set bs"
      from c show False
      proof
        assume "f j < f x" with ge_bs [OF b] show False by simp
      next
        assume "f j = f x \<and> j < x" with gt_bs [OF b] show False by simp
      qed
    qed
    ultimately show "j \<in> set as" by blast
  qed
qed

lemma in_take_sort_key_iff:
  fixes f :: "nat \<Rightarrow> real"
  assumes "i < n"
  shows "i \<in> set (take k (sort_key f [0..<n]))
           \<longleftrightarrow> card {j. j < n \<and> (f j < f i \<or> (f j = f i \<and> j < i))} < k"
proof -
  have "i \<in> set (sort_key f [0..<n])" using assms by simp
  then obtain as bs where ys: "sort_key f [0..<n] = as @ i # bs"
    using split_list [of i "sort_key f [0..<n]"] by blast
  have dist: "distinct (as @ i # bs)" using ys [symmetric] by simp
  have card: "card {j. j < n \<and> (f j < f i \<or> (f j = f i \<and> j < i))} = length as"
    using stable_prefix_set [OF ys] dist distinct_card [of as] by simp
  have "i \<in> set (take k (as @ i # bs)) \<longleftrightarrow> length as < k"
  proof
    assume m: "i \<in> set (take k (as @ i # bs))"
    show "length as < k"
    proof (rule ccontr)
      assume "\<not> length as < k"
      then have "take k (as @ i # bs) = take k as" by simp
      with m have "i \<in> set as" by (auto dest: in_set_takeD)
      with dist show False by simp
    qed
  next
    assume "length as < k"
    then obtain m where "k - length as = Suc m" by (cases "k - length as") auto
    then show "i \<in> set (take k (as @ i # bs))" by simp
  qed
  with ys card show ?thesis by simp
qed

lemma nlargest_iff:
  assumes "i < length rs"
  shows "i \<in> set (nlargest k rs) \<longleftrightarrow> rank_before rs i < k"
proof -
  have "rank_before rs i
          = card ({j. rs ! i < rs ! j \<or> (rs ! j = rs ! i \<and> j < i)} \<inter> set [0..<length rs])"
    unfolding rank_before_def by (rule distinct_length_filter) simp
  also have "{j. rs ! i < rs ! j \<or> (rs ! j = rs ! i \<and> j < i)} \<inter> set [0..<length rs]
          = {j. j < length rs \<and> (- (rs ! j) < - (rs ! i) \<or> (- (rs ! j) = - (rs ! i) \<and> j < i))}"
    by auto
  finally show ?thesis
    using in_take_sort_key_iff [OF assms, of k "\<lambda>i. - (rs ! i)"] by (simp add: nlargest_def)
qed

subsection \<open>The contract of the rounding\<close>






text \<open>
  One vote split by the weights 1 and 4 of 10: the cells are the binary64 numbers next
  to \<open>0.1\<close> and \<open>0.4\<close>, the float64 sum of the remainders is \<open>0.5\<close>, which rounds to
  \<open>0\<close>, and neither element is incremented.
\<close>

lemma hamilton_floor_tenths:
  "round64 (1 / 10) = Num (3602879701896397 / 2 ^ 55)
   \<and> round64 (4 / 10) = Num (3602879701896397 / 2 ^ 53)
   \<and> seq_sum [3602879701896397 / 2 ^ 55, 3602879701896397 / 2 ^ 53] = 1 / 2
   \<and> hamilton_floor seq_sum [Num (3602879701896397 / 2 ^ 55), Num (3602879701896397 / 2 ^ 53)]
       = Inr [0, 0]"
proof -
  have a: "round64 (1 / 10) = Num (3602879701896397 / 2 ^ 55)"
    using round64_normal [of "1 / 10" 56] by (simp add: py_round_def)
  have b: "round64 (4 / 10) = Num (3602879701896397 / 2 ^ 53)"
    using round64_normal [of "4 / 10" 54] by (simp add: py_round_def)
  have c: "round64 (3602879701896397 / 2 ^ 55) = Num (3602879701896397 / 2 ^ 55)"
    using round64_exact [of 3602879701896397 55] by simp
  have d: "round64 (3602879701896397 / 2 ^ 55 + 3602879701896397 / 2 ^ 53) = Num (1 / 2)"
    using round64_normal [of "3602879701896397 / 2 ^ 55 + 3602879701896397 / 2 ^ 53" 53]
    by (simp add: py_round_def)
  have s: "seq_sum [3602879701896397 / 2 ^ 55, 3602879701896397 / 2 ^ 53] = 1 / 2"
    using c d by (simp add: seq_sum_def)
  have e: "round64 (3602879701896397 / 2 ^ 53) = Num (3602879701896397 / 2 ^ 53)"
    using round64_exact [of 3602879701896397 53] by simp
  have r: "remainders [3602879701896397 / 2 ^ 55, 3602879701896397 / 2 ^ 53]
      = [3602879701896397 / 2 ^ 55, 3602879701896397 / 2 ^ 53]"
    using c e by (simp add: remainders_def)
  have "hamilton_floor seq_sum
      (map Num [3602879701896397 / 2 ^ 55, 3602879701896397 / 2 ^ 53]) = Inr [0, 0]"
    by (simp only: hamilton_floor_nums r s) (simp add: py_round_def nlargest_def loc_add1_def)
  with a b s show ?thesis by simp
qed

text \<open>
  Claim C6. In a group of finite values whose floors lie in the range of int64, with
  deficit \<open>d\<close> (the float64 sum of the remainders, rounded), element \<open>i\<close> receives its
  floor plus one exactly when fewer than \<open>d\<close> elements are ranked before it, an element
  being ranked before \<open>i\<close> when its remainder is larger, or equal with an earlier
  position; otherwise it keeps its floor. The number of incremented elements is \<open>d\<close>,
  or the size of the group if that is less. The output is a function of the values and
  their order.
\<close>

theorem hamilton_floor_tie_break:
  fixes xs :: "real list"
  assumes "i < length xs" and "\<forall>x \<in> set xs. in_int64 x"
  shows "\<exists>out. hamilton_floor series_sum (map Num xs) = Inr out
           \<and> out ! i =
               (if rank_before (remainders xs) i < nat (py_round (series_sum (remainders xs)))
                then \<lfloor>xs ! i\<rfloor> + 1 else \<lfloor>xs ! i\<rfloor>)
           \<and> length (filter (\<lambda>j. out ! j = \<lfloor>xs ! j\<rfloor> + 1) [0..<length xs])
               = min (nat (py_round (series_sum (remainders xs)))) (length xs)"
proof -
  let ?rs = "remainders xs"
  let ?d = "py_round (series_sum ?rs)"
  let ?idx = "nlargest (nat ?d) ?rs"
  have all: "hamilton_floor series_sum (map Num xs) = Inr (loc_add1 ?idx (map floor xs))"
    by (rule hamilton_floor_nums)
  have nth: "\<And>j. j < length xs \<Longrightarrow>
      loc_add1 ?idx (map floor xs) ! j = (if j \<in> set ?idx then \<lfloor>xs ! j\<rfloor> + 1 else \<lfloor>xs ! j\<rfloor>)"
    by (simp add: loc_add1_nth)
  have mem: "i \<in> set ?idx \<longleftrightarrow> rank_before ?rs i < nat ?d"
    by (rule nlargest_iff) (simp add: remainders_length assms(1))
  have "filter (\<lambda>j. loc_add1 ?idx (map floor xs) ! j = \<lfloor>xs ! j\<rfloor> + 1) [0..<length xs]
          = filter (\<lambda>j. j \<in> set ?idx) [0..<length xs]"
    by (rule filter_cong) (simp_all add: nth)
  also have "length \<dots> = card ({j. j \<in> set ?idx} \<inter> set [0..<length xs])"
    by (rule distinct_length_filter) simp
  also have "{j. j \<in> set ?idx} \<inter> set [0..<length xs] = set ?idx"
    using nlargest_set [of "nat ?d" ?rs] by (auto simp: remainders_length)
  also have "card (set ?idx) = min (nat ?d) (length xs)"
    by (simp add: nlargest_card remainders_length)
  finally have cnt: "length (filter (\<lambda>j. loc_add1 ?idx (map floor xs) ! j = \<lfloor>xs ! j\<rfloor> + 1)
      [0..<length xs]) = min (nat ?d) (length xs)" .
  from all nth [OF assms(1)] mem cnt show ?thesis by simp
qed

text \<open>
  Four votes split by the weights 1, 4 and 1 of 6: the cells are the binary64 numbers
  next to \<open>2/3\<close>, \<open>8/3\<close> and \<open>2/3\<close>. The remainder of the second is smaller than
  the other two by one unit in the last place, the float64 sum of the three rounds to
  \<open>2\<close>, and the first and the third element are incremented.
\<close>

lemma cells_thirds:
  "round64 (2 / 3) = Num (6004799503160661 / 2 ^ 53)"
  "round64 (8 / 3) = Num (6004799503160661 / 2 ^ 51)"
proof -
  show "round64 (2 / 3) = Num (6004799503160661 / 2 ^ 53)"
    using round64_normal [of "2 / 3" 53] by (simp add: py_round_def)
  show "round64 (8 / 3) = Num (6004799503160661 / 2 ^ 51)"
    using round64_normal [of "8 / 3" 51] by (simp add: py_round_def)
qed

lemma remainders_thirds:
  "remainders [6004799503160661 / 2 ^ 53, 6004799503160661 / 2 ^ 51, 6004799503160661 / 2 ^ 53]
     = [6004799503160661 / 2 ^ 53, 6004799503160660 / 2 ^ 53, 6004799503160661 / 2 ^ 53]"
proof -
  have a: "round64 (6004799503160661 / 2 ^ 53) = Num (6004799503160661 / 2 ^ 53)"
    using round64_exact [of 6004799503160661 53] by simp
  have b: "round64 (1501199875790165 / 2 ^ 51) = Num (1501199875790165 / 2 ^ 51)"
    using round64_exact [of 1501199875790165 51] by simp
  show ?thesis
    using a b by (simp add: remainders_def)
qed

lemma seq_sum_thirds:
  "seq_sum [6004799503160661 / 2 ^ 53, 6004799503160660 / 2 ^ 53, 6004799503160661 / 2 ^ 53]
     = 9007199254740990 / 2 ^ 52"
proof -
  have a: "round64 (6004799503160661 / 2 ^ 53) = Num (6004799503160661 / 2 ^ 53)"
    using round64_exact [of 6004799503160661 53] by simp
  have b: "round64 (6004799503160661 / 2 ^ 53 + 6004799503160660 / 2 ^ 53)
      = Num (6004799503160660 / 2 ^ 52)"
    using round64_normal [of "6004799503160661 / 2 ^ 53 + 6004799503160660 / 2 ^ 53" 52]
    by (simp add: py_round_def)
  have c: "round64 (6004799503160660 / 2 ^ 52 + 6004799503160661 / 2 ^ 53)
      = Num (9007199254740990 / 2 ^ 52)"
    using round64_normal [of "6004799503160660 / 2 ^ 52 + 6004799503160661 / 2 ^ 53" 52]
    by (simp add: py_round_def)
  show ?thesis
    using a b c by (simp add: seq_sum_def)
qed

theorem hamilton_floor_tie_break_witness:
  "(2::nat) < length [6004799503160661 / 2 ^ 53, 6004799503160661 / 2 ^ 51,
      6004799503160661 / 2 ^ 53 :: real]
   \<and> in_int64 (6004799503160661 / 2 ^ 53) \<and> in_int64 (6004799503160661 / 2 ^ 51)
   \<and> hamilton_floor seq_sum
       (map Num [6004799503160661 / 2 ^ 53, 6004799503160661 / 2 ^ 51,
          6004799503160661 / 2 ^ 53]) = Inr [1, 2, 1]
   \<and> py_round (seq_sum (remainders [6004799503160661 / 2 ^ 53, 6004799503160661 / 2 ^ 51,
          6004799503160661 / 2 ^ 53])) = 2
   \<and> rank_before (remainders [6004799503160661 / 2 ^ 53, 6004799503160661 / 2 ^ 51,
          6004799503160661 / 2 ^ 53]) 2 = 1"
proof -
  let ?xs = "[6004799503160661 / 2 ^ 53, 6004799503160661 / 2 ^ 51,
      6004799503160661 / 2 ^ 53 :: real]"
  have h: "(2::nat) < length ?xs" by simp
  have r: "\<forall>x \<in> set ?xs. in_int64 x" by (simp add: in_int64_def)
  have d': "py_round (seq_sum [6004799503160661 / 2 ^ 53, 6004799503160660 / 2 ^ 53,
      6004799503160661 / 2 ^ 53]) = 2"
    by (simp only: seq_sum_thirds) (simp add: py_round_def)
  then have d: "py_round (seq_sum (remainders ?xs)) = 2"
    by (simp only: remainders_thirds)
  have v: "hamilton_floor seq_sum (map Num ?xs) = Inr [1, 2, 1]"
    by (simp only: hamilton_floor_nums remainders_thirds d')
      (simp add: nlargest_def loc_add1_def)
  have k: "rank_before (remainders ?xs) 2 = 1"
    by (simp only: remainders_thirds) (simp add: rank_before_def upt_rec)
  from hamilton_floor_tie_break [OF h r, of seq_sum] h r v d k show ?thesis by simp
qed

section \<open>Properties of the allocation pipeline\<close>

lemma replace_inf_num: "\<not> isna (replace_inf v) \<Longrightarrow> is_num (replace_inf v)"
  by (cases v) simp_all

lemma raw_allocations_num:
  assumes "r \<in> set (raw_allocations conversion_df election_df)"
  shows "is_num (dem_raw r) \<and> is_num (rep_raw r)"
proof -
  from assms obtain r' where "r = replace_inf_row r'" and "has_raw r"
    by (auto simp: raw_allocations_def)
  then show ?thesis
    by (simp add: has_raw_def replace_inf_row_def replace_inf_num)
qed

lemma map_Num_the_num: "\<forall>v \<in> set vs. is_num v \<Longrightarrow> map Num (map the_num vs) = vs"
proof (induction vs)
  case Nil
  then show ?case by simp
next
  case (Cons v vs)
  then show ?case by (cases v) simp_all
qed

lemma hamilton_floor_total:
  assumes "\<forall>v \<in> set vs. is_num v"
  shows "hamilton_floor series_sum vs = Inr (projr (hamilton_floor series_sum vs))"
    and "length (projr (hamilton_floor series_sum vs)) = length vs"
proof -
  obtain out where out: "hamilton_floor series_sum (map Num (map the_num vs)) = Inr out"
    using hamilton_floor_nums_total by blast
  then have "length out = length (map the_num vs)"
    by (rule hamilton_floor_nums_length)
  with out map_Num_the_num [OF assms]
  show "hamilton_floor series_sum vs = Inr (projr (hamilton_floor series_sum vs))"
    and "length (projr (hamilton_floor series_sum vs)) = length vs"
    by simp_all
qed

lemma group_values_map:
  "group_values (map key rows) (map val rows) k = map val (filter (\<lambda>r. key r = k) rows)"
  by (induction rows) (simp_all add: group_values_def)

lemma group_values_subset: "set (group_values keys vals k) \<subseteq> set vals"
  by (auto simp: group_values_def dest: set_zip_rightD)

lemma groupby_transform_total:
  assumes "\<forall>v \<in> set vals. is_num v"
  shows "groupby_transform (hamilton_floor series_sum) keys vals =
           Inr (scatter (\<lambda>k. projr (hamilton_floor series_sum (group_values keys vals k))) keys)"
proof -
  have "\<not> isl (hamilton_floor series_sum (group_values keys vals k))" for k
  proof -
    have "\<forall>v \<in> set (group_values keys vals k). is_num v"
      using assms group_values_subset [of keys vals k] by blast
    from hamilton_floor_total(1) [OF this] show ?thesis
      by (metis sum.disc(2))
  qed
  then show ?thesis by (simp add: groupby_transform_def)
qed

lemma apportion_total:
  "apportion series_sum conversion_df election_df
     = Inr (apportioned series_sum (raw_allocations conversion_df election_df))"
proof -
  let ?m = "raw_allocations conversion_df election_df"
  have d: "\<forall>v \<in> set (map dem_raw ?m). is_num v"
    using raw_allocations_num by auto
  have r: "\<forall>v \<in> set (map rep_raw ?m). is_num v"
    using raw_allocations_num by auto
  show ?thesis
    unfolding apportion_def Let_def apportioned_def
      groupby_transform_total [OF d] groupby_transform_total [OF r]
    by (simp add: group_values_map dem_groups_def rep_groups_def)
qed


















subsection \<open>Conservation\<close>




text \<open>
  Rounding alone breaks conservation for a precinct whose weights add up to its total: a
  count above \<open>2\<^sup>5\<^sup>3\<close> is rounded when it enters the float arithmetic, and a product
  beyond the range of binary64 is an infinity, whose row is dropped.
\<close>

lemma round64_above_2_53:
  "round64 9007199254740993 = Num 9007199254740992"
  "round64 9007199254740992 = Num 9007199254740992"
proof -
  show "round64 9007199254740993 = Num 9007199254740992"
    using round64_large [of 9007199254740993 1] by (simp add: py_round_def)
  show "round64 9007199254740992 = Num 9007199254740992"
    using round64_large [of 9007199254740992 1] by (simp add: py_round_def)
qed

lemma conservation_rounded_count:
  "apportion seq_sum
     [\<lparr>c_SRPREC_KEY = ''P1'', c_BLOCK_KEY = ''060010001001001'', c_BLKREG = Num 1,
       c_SRTOTREG = Num 1\<rparr>]
     [\<lparr>e_SRPREC_KEY = ''P1'', e_dem = 9007199254740993, e_rep = 0\<rparr>]
   = Inr [\<lparr>a_SRPREC_KEY = ''P1'', a_BLOCK_KEY = ''060010001001001'',
           a_dem = 9007199254740992, a_rep = 0\<rparr>]"
  by (simp add: apportion_total pipeline_defs round64_eval round64_above_2_53)

lemma round64_product_overflow: "round64 (1073741824 * 2 ^ 1000) = PInf"
proof -
  have "(2::real) ^ 1024 \<le> 2 ^ 1030"
    by (intro power_increasing) simp_all
  also have "(2::real) ^ 1030 = 1073741824 * 2 ^ 1000"
    by (simp flip: power_add add: power_add [of 2 30 1000])
  finally have "(2::real) ^ 1024 \<le> \<bar>1073741824 * 2 ^ 1000\<bar>"
    by simp
  from round64_overflow [OF this] show ?thesis
    by (simp add: signed_inf_def)
qed

lemma conservation_overflow:
  "apportion seq_sum
     [\<lparr>c_SRPREC_KEY = ''P1'', c_BLOCK_KEY = ''060010001001001'', c_BLKREG = Num (2 ^ 1000),
       c_SRTOTREG = Num (2 ^ 1000)\<rparr>]
     [\<lparr>e_SRPREC_KEY = ''P1'', e_dem = 1073741824, e_rep = 0\<rparr>]
   = Inr []"
  using round64_product_overflow
  by (simp add: apportion_total pipeline_defs round64_eval)








subsection \<open>The groups handed to the rounding\<close>




subsection \<open>Rows without effect\<close>







subsection \<open>The entry points return\<close>

lemma rollup_eq:
  "rollup series_sum conversion_df election_df level =
     (let block_df = block_frame 12 (apportioned series_sum (raw_allocations conversion_df election_df))
      in if level = ''block'' then Inr block_df
         else if level = ''blockgroup'' then Inr (aggregate 12 block_df)
         else if level = ''tract'' then Inr (aggregate 11 block_df)
         else if level = ''county'' then Inr (aggregate 5 block_df)
         else Inl ValueError)"
  by (simp add: rollup_def apportion_total)

lemma graphify_blockify_eq:
  "graphify_blockify series_sum conversion_df election_df level = rollup series_sum conversion_df election_df level"
  by (simp add: graphify_blockify_def rollup_def)

lemma cultivate_blockify_eq:
  "cultivate_blockify series_sum conversion_df election_df level =
     (if level = ''blockgroup''
      then Inr (aggregate 11
             (block_frame 11 (apportioned series_sum (raw_allocations conversion_df election_df))))
      else Inl ValueError)"
  by (simp add: cultivate_blockify_def apportion_total)






section \<open>Properties of the aggregation\<close>

lemma groupby_sum_keys:
  "map GEOID (groupby_sum key d r rows) = sort (remdups (map key rows))"
  by (simp add: groupby_sum_def Let_def o_def)

lemma groupby_sum_row:
  assumes "t \<in> set (groupby_sum key d r rows)"
  shows "dem t = sum_list (map d (filter (\<lambda>x. key x = GEOID t) rows))"
    and "rep t = sum_list (map r (filter (\<lambda>x. key x = GEOID t) rows))"
    and "tot t = dem t + rep t"
    and "GEOID t \<in> key ` set rows"
  using assms by (auto simp: groupby_sum_def Let_def)

lemma groupby_sum_sorted: "sorted (map GEOID (groupby_sum key d r rows))"
  by (simp add: groupby_sum_keys)

lemma groupby_sum_distinct: "distinct (map GEOID (groupby_sum key d r rows))"
  by (simp add: groupby_sum_keys)

lemma block_frame_eq:
  "block_frame n merged =
     filter (\<lambda>b. last_is_not_0 (take n (GEOID b)))
       (groupby_sum a_BLOCK_KEY a_dem a_rep merged)"
  unfolding block_frame_def
  by (rule sort_key_id_if_sorted) (rule sorted_filter, rule groupby_sum_sorted)

lemma aggregate_eq:
  "aggregate n block_df = groupby_sum (\<lambda>b. take n (GEOID b)) dem rep block_df"
  unfolding aggregate_def
  by (rule sort_key_id_if_sorted) (rule groupby_sum_sorted)


lemma block_frame_distinct: "distinct (map GEOID (block_frame n merged))"
  unfolding block_frame_eq by (rule distinct_map_filter) (rule groupby_sum_distinct)

lemma block_frame_row:
  assumes "b \<in> set (block_frame n merged)"
  shows "dem b = sum_list (map a_dem (filter (\<lambda>a. a_BLOCK_KEY a = GEOID b) merged))"
    and "rep b = sum_list (map a_rep (filter (\<lambda>a. a_BLOCK_KEY a = GEOID b) merged))"
    and "tot b = dem b + rep b"
    and "GEOID b \<in> a_BLOCK_KEY ` set merged"
    and "last_is_not_0 (take n (GEOID b))"
proof -
  from assms have m: "b \<in> set (groupby_sum a_BLOCK_KEY a_dem a_rep merged)"
    and l: "last_is_not_0 (take n (GEOID b))"
    by (simp_all add: block_frame_eq)
  from groupby_sum_row [OF m] l
  show "dem b = sum_list (map a_dem (filter (\<lambda>a. a_BLOCK_KEY a = GEOID b) merged))"
    and "rep b = sum_list (map a_rep (filter (\<lambda>a. a_BLOCK_KEY a = GEOID b) merged))"
    and "tot b = dem b + rep b"
    and "GEOID b \<in> a_BLOCK_KEY ` set merged"
    and "last_is_not_0 (take n (GEOID b))"
    by simp_all
qed

lemma block_frame_keys:
  "set (map GEOID (block_frame n merged))
     = {k \<in> a_BLOCK_KEY ` set merged. last_is_not_0 (take n k)}"
proof -
  have "set (map GEOID (block_frame n merged))
      = {k \<in> set (map GEOID (groupby_sum a_BLOCK_KEY a_dem a_rep merged)).
           last_is_not_0 (take n k)}"
    by (auto simp: block_frame_eq)
  also have "set (map GEOID (groupby_sum a_BLOCK_KEY a_dem a_rep merged))
      = a_BLOCK_KEY ` set merged"
    by (simp add: groupby_sum_keys)
  finally show ?thesis .
qed

subsection \<open>Sums of sums\<close>

lemma sum_list_filter_disj:
  fixes d :: "'a \<Rightarrow> int"
  assumes "\<And>x. \<not> (P x \<and> Q x)"
  shows "sum_list (map d (filter (\<lambda>x. P x \<or> Q x) rows))
           = sum_list (map d (filter P rows)) + sum_list (map d (filter Q rows))"
  using assms by (induction rows) auto

lemma sum_by_keys:
  fixes d :: "'a \<Rightarrow> int"
  assumes "distinct ks"
  shows "sum_list (map (\<lambda>k. sum_list (map d (filter (\<lambda>x. key x = k) rows))) ks)
           = sum_list (map d (filter (\<lambda>x. key x \<in> set ks) rows))"
  using assms
proof (induction ks)
  case Nil
  then show ?case by simp
next
  case (Cons k ks)
  then have k: "k \<notin> set ks" and IH: "sum_list (map (\<lambda>k. sum_list (map d (filter (\<lambda>x. key x = k) rows))) ks)
           = sum_list (map d (filter (\<lambda>x. key x \<in> set ks) rows))"
    by simp_all
  have "sum_list (map d (filter (\<lambda>x. key x = k \<or> key x \<in> set ks) rows))
      = sum_list (map d (filter (\<lambda>x. key x = k) rows))
        + sum_list (map d (filter (\<lambda>x. key x \<in> set ks) rows))"
    by (rule sum_list_filter_disj) (use k in auto)
  with IH show ?case by simp
qed

lemma regroup_sum:
  fixes h :: "string \<Rightarrow> string"
  shows "sum_list (map dem (filter (\<lambda>b. h (GEOID b) = g) (block_frame m A)))
           = sum_list (map a_dem
               (filter (\<lambda>a. last_is_not_0 (take m (a_BLOCK_KEY a)) \<and> h (a_BLOCK_KEY a) = g) A))"
    and "sum_list (map rep (filter (\<lambda>b. h (GEOID b) = g) (block_frame m A)))
           = sum_list (map a_rep
               (filter (\<lambda>a. last_is_not_0 (take m (a_BLOCK_KEY a)) \<and> h (a_BLOCK_KEY a) = g) A))"
proof -
  let ?B = "filter (\<lambda>b. h (GEOID b) = g) (block_frame m A)"
  let ?ks = "map GEOID ?B"
  have dist: "distinct ?ks"
    by (rule distinct_map_filter) (rule block_frame_distinct)
  have "set ?ks = {k \<in> set (map GEOID (block_frame m A)). h k = g}"
    by auto
  then have ks: "set ?ks = {k \<in> a_BLOCK_KEY ` set A. last_is_not_0 (take m k) \<and> h k = g}"
    unfolding block_frame_keys by auto
  have mem: "filter (\<lambda>a. a_BLOCK_KEY a \<in> set ?ks) A
      = filter (\<lambda>a. last_is_not_0 (take m (a_BLOCK_KEY a)) \<and> h (a_BLOCK_KEY a) = g) A"
    by (rule filter_cong) (auto simp only: ks)
  have "map dem ?B
      = map (\<lambda>b. sum_list (map a_dem (filter (\<lambda>a. a_BLOCK_KEY a = GEOID b) A))) ?B"
    by (rule map_cong) (auto dest: block_frame_row(1))
  also have "\<dots> = map (\<lambda>k. sum_list (map a_dem (filter (\<lambda>a. a_BLOCK_KEY a = k) A))) ?ks"
    by (simp add: o_def)
  finally have "sum_list (map dem ?B)
      = sum_list (map a_dem (filter (\<lambda>a. a_BLOCK_KEY a \<in> set ?ks) A))"
    by (simp only: sum_by_keys [OF dist])
  then show "sum_list (map dem ?B) = sum_list (map a_dem
      (filter (\<lambda>a. last_is_not_0 (take m (a_BLOCK_KEY a)) \<and> h (a_BLOCK_KEY a) = g) A))"
    by (simp only: mem)
  have "map rep ?B
      = map (\<lambda>b. sum_list (map a_rep (filter (\<lambda>a. a_BLOCK_KEY a = GEOID b) A))) ?B"
    by (rule map_cong) (auto dest: block_frame_row(2))
  also have "\<dots> = map (\<lambda>k. sum_list (map a_rep (filter (\<lambda>a. a_BLOCK_KEY a = k) A))) ?ks"
    by (simp add: o_def)
  finally have "sum_list (map rep ?B)
      = sum_list (map a_rep (filter (\<lambda>a. a_BLOCK_KEY a \<in> set ?ks) A))"
    by (simp only: sum_by_keys [OF dist])
  then show "sum_list (map rep ?B) = sum_list (map a_rep
      (filter (\<lambda>a. last_is_not_0 (take m (a_BLOCK_KEY a)) \<and> h (a_BLOCK_KEY a) = g) A))"
    by (simp only: mem)
qed


lemma aggregate_row:
  assumes "t \<in> set (aggregate n B)"
  shows "dem t = sum_list (map dem (filter (\<lambda>b. take n (GEOID b) = GEOID t) B))"
    and "rep t = sum_list (map rep (filter (\<lambda>b. take n (GEOID b) = GEOID t) B))"
    and "tot t = dem t + rep t"
  using assms groupby_sum_row [of t "\<lambda>b. take n (GEOID b)" dem rep B]
  by (simp_all add: aggregate_eq)

lemma aggregate_keys: "GEOID ` set (aggregate n B) = (\<lambda>b. take n (GEOID b)) ` set B"
proof -
  have "GEOID ` set (aggregate n B) = set (map GEOID (aggregate n B))" by simp
  also have "\<dots> = set (map (\<lambda>b. take n (GEOID b)) B)"
    by (simp only: aggregate_eq groupby_sum_keys set_sort set_remdups)
  finally show ?thesis by simp
qed


lemma sentinel_iff: "last_is_not_0 (take m k) \<longleftrightarrow> \<not> sentinel m k"
  by (auto simp: last_is_not_0_def sentinel_def)

lemma distinct_filter_self:
  assumes "distinct (map f xs)" "t \<in> set xs"
  shows "filter (\<lambda>b. f b = f t) xs = [t]"
  using assms
proof (induction xs)
  case Nil
  then show ?case by simp
next
  case (Cons x xs)
  show ?case
  proof (cases "x = t")
    case True
    with Cons.prems have "f t \<notin> f ` set xs" by simp
    then have "\<forall>b \<in> set xs. f b \<noteq> f t" by (metis imageI)
    then have "filter (\<lambda>b. f b = f t) xs = []" by (simp add: filter_empty_conv)
    with True show ?thesis by simp
  next
    case False
    with Cons.prems have t: "t \<in> set xs" and "f x \<noteq> f t" by auto
    with Cons show ?thesis by simp
  qed
qed

lemma sort_remdups_cong: "set xs = set ys \<Longrightarrow> sort (remdups xs) = sort (remdups ys)"
  by (rule sorted_distinct_set_unique) simp_all

lemma aggregate_direct:
  "aggregate n (block_frame m A) = direct_aggregate m n A"
proof -
  let ?B = "block_frame m A"
  let ?A' = "filter (\<lambda>a. \<not> sentinel m (a_BLOCK_KEY a)) A"
  have "set (map (\<lambda>b. take n (GEOID b)) ?B) = take n ` set (map GEOID ?B)"
    by auto
  also have "\<dots> = set (map (\<lambda>a. take n (a_BLOCK_KEY a)) ?A')"
    unfolding block_frame_keys by (auto simp: sentinel_iff)
  finally have keys: "sort (remdups (map (\<lambda>b. take n (GEOID b)) ?B))
      = sort (remdups (map (\<lambda>a. take n (a_BLOCK_KEY a)) ?A'))"
    by (rule sort_remdups_cong)
  have d: "sum_list (map dem (filter (\<lambda>b. take n (GEOID b) = g) ?B))
      = sum_list (map a_dem (filter (\<lambda>a. take n (a_BLOCK_KEY a) = g) ?A'))" for g
    using regroup_sum(1) [of "take n" g m A] by (simp add: sentinel_iff conj_commute)
  have r: "sum_list (map rep (filter (\<lambda>b. take n (GEOID b) = g) ?B))
      = sum_list (map a_rep (filter (\<lambda>a. take n (a_BLOCK_KEY a) = g) ?A'))" for g
    using regroup_sum(2) [of "take n" g m A] by (simp add: sentinel_iff conj_commute)
  show ?thesis
    unfolding aggregate_eq direct_aggregate_def groupby_sum_def keys
    by (simp only: Let_def d r)
qed

lemma aggregate_block_frame_row:
  assumes "t \<in> set (aggregate n (block_frame m A))"
  shows "\<exists>a \<in> set A. \<not> sentinel m (a_BLOCK_KEY a) \<and> GEOID t = take n (a_BLOCK_KEY a)"
    and "dem t = sum_list (map a_dem
           (filter (\<lambda>a. \<not> sentinel m (a_BLOCK_KEY a) \<and> take n (a_BLOCK_KEY a) = GEOID t) A))"
    and "rep t = sum_list (map a_rep
           (filter (\<lambda>a. \<not> sentinel m (a_BLOCK_KEY a) \<and> take n (a_BLOCK_KEY a) = GEOID t) A))"
proof -
  from assms have "GEOID t \<in> GEOID ` set (aggregate n (block_frame m A))" by blast
  then have "GEOID t \<in> take n ` set (map GEOID (block_frame m A))"
    unfolding aggregate_keys by auto
  then show "\<exists>a \<in> set A. \<not> sentinel m (a_BLOCK_KEY a) \<and> GEOID t = take n (a_BLOCK_KEY a)"
    unfolding block_frame_keys by (auto simp: sentinel_iff)
  show "dem t = sum_list (map a_dem
           (filter (\<lambda>a. \<not> sentinel m (a_BLOCK_KEY a) \<and> take n (a_BLOCK_KEY a) = GEOID t) A))"
    using aggregate_row(1) [OF assms] regroup_sum(1) [of "take n" "GEOID t" m A]
    by (simp add: sentinel_iff)
  show "rep t = sum_list (map a_rep
           (filter (\<lambda>a. \<not> sentinel m (a_BLOCK_KEY a) \<and> take n (a_BLOCK_KEY a) = GEOID t) A))"
    using aggregate_row(2) [OF assms] regroup_sum(2) [of "take n" "GEOID t" m A]
    by (simp add: sentinel_iff)
qed

lemma block_frame_direct_row:
  assumes "t \<in> set (block_frame m A)"
  shows "\<exists>a \<in> set A. \<not> sentinel m (a_BLOCK_KEY a) \<and> GEOID t = a_BLOCK_KEY a"
    and "dem t = sum_list (map a_dem
           (filter (\<lambda>a. \<not> sentinel m (a_BLOCK_KEY a) \<and> a_BLOCK_KEY a = GEOID t) A))"
    and "rep t = sum_list (map a_rep
           (filter (\<lambda>a. \<not> sentinel m (a_BLOCK_KEY a) \<and> a_BLOCK_KEY a = GEOID t) A))"
proof -
  note row = block_frame_row [OF assms]
  from row(4,5) show "\<exists>a \<in> set A. \<not> sentinel m (a_BLOCK_KEY a) \<and> GEOID t = a_BLOCK_KEY a"
    by (auto simp: sentinel_iff)
  have eq: "filter (\<lambda>a. \<not> sentinel m (a_BLOCK_KEY a) \<and> a_BLOCK_KEY a = GEOID t) A
      = filter (\<lambda>a. a_BLOCK_KEY a = GEOID t) A"
    by (rule filter_cong) (use row(5) in \<open>auto simp: sentinel_iff\<close>)
  show "dem t = sum_list (map a_dem
           (filter (\<lambda>a. \<not> sentinel m (a_BLOCK_KEY a) \<and> a_BLOCK_KEY a = GEOID t) A))"
    by (simp only: eq row(1))
  show "rep t = sum_list (map a_rep
           (filter (\<lambda>a. \<not> sentinel m (a_BLOCK_KEY a) \<and> a_BLOCK_KEY a = GEOID t) A))"
    by (simp only: eq row(2))
qed

lemma apportion_Inr:
  "apportion series_sum conversion_df election_df = Inr A
     \<longleftrightarrow> A = apportioned series_sum (raw_allocations conversion_df election_df)"
  by (auto simp: apportion_total)

lemma rollup_block:
  "rollup series_sum conversion_df election_df ''block''
     = Inr (block_frame 12 (apportioned series_sum (raw_allocations conversion_df election_df)))"
  by (simp add: rollup_eq)

lemma rollup_coarse:
  assumes "level_prefix level = Some n"
  shows "rollup series_sum conversion_df election_df level
           = Inr (aggregate n
               (block_frame 12 (apportioned series_sum (raw_allocations conversion_df election_df))))"
    and "level_key level = take n"
  using assms
  by (auto simp: level_prefix_def level_key_def rollup_eq Let_def fun_eq_iff split: if_splits)

lemma valid_levels_cases:
  assumes "level \<in> valid_levels"
  obtains "level = ''block''" | n where "level_prefix level = Some n"
  using assms by (auto simp: valid_levels_def level_prefix_def)

lemma level_key_block: "level_key ''block'' = (\<lambda>k. k)"
  by (simp add: level_key_def fun_eq_iff)



subsection \<open>The levels\<close>

lemma take_leading_0: "with_leading_0 (take 11 k) = take 12 (with_leading_0 k)"
  by (simp add: with_leading_0_def)

lemma sentinel_leading_0: "k \<noteq> [] \<Longrightarrow> sentinel 12 (with_leading_0 k) = sentinel 11 k"
  by (cases k) (simp_all add: sentinel_def with_leading_0_def)

text \<open>
  Claim C3, as the code has it. In \<open>Blockify.rollup\<close> and \<open>Graphify.blockify\<close>
  the identifiers at a level are those of the block-level table, unchanged at level
  \<open>block\<close> and cut to their first 12, 11 or 5 characters at levels \<open>blockgroup\<close>,
  \<open>tract\<close>, \<open>county\<close>; a row holds the sums of the block rows with its
  identifier. \<open>Cultivate.blockify\<close> has the level \<open>blockgroup\<close> only. It cuts the
  string it holds for a sub-unit to its first 11 characters, which is the cut of the
  identifier to its first 12 characters without the leading \<open>0\<close>, and a row holds the
  sums over the sub-units outside the sentinel geography with that code.
\<close>

theorem prefix_rule:
  assumes "apportion series_sum conversion_df election_df = Inr A"
    and "rollup series_sum conversion_df election_df ''block'' = Inr B"
    and "level \<in> valid_levels"
  shows "(\<exists>T. rollup series_sum conversion_df election_df level = Inr T
            \<and> graphify_blockify series_sum conversion_df election_df level = Inr T
            \<and> GEOID ` set T = level_key level ` GEOID ` set B
            \<and> (\<forall>t \<in> set T.
                 dem t = sum_list (map dem
                   (filter (\<lambda>b. level_key level (GEOID b) = GEOID t) B))
                 \<and> rep t = sum_list (map rep
                   (filter (\<lambda>b. level_key level (GEOID b) = GEOID t) B))))
         \<and> (\<exists>T. cultivate_blockify series_sum conversion_df election_df ''blockgroup'' = Inr T
            \<and> GEOID ` set T = take 11 ` {k \<in> a_BLOCK_KEY ` set A. \<not> sentinel 11 k}
            \<and> (\<forall>t \<in> set T.
                 dem t = sum_list (map a_dem
                   (filter (\<lambda>a. \<not> sentinel 11 (a_BLOCK_KEY a)
                               \<and> take 11 (a_BLOCK_KEY a) = GEOID t) A))
                 \<and> rep t = sum_list (map a_rep
                   (filter (\<lambda>a. \<not> sentinel 11 (a_BLOCK_KEY a)
                               \<and> take 11 (a_BLOCK_KEY a) = GEOID t) A))))
         \<and> (\<forall>k. with_leading_0 (take 11 k) = take 12 (with_leading_0 k))
         \<and> (\<forall>k. k \<noteq> [] \<longrightarrow> sentinel 11 k = sentinel 12 (with_leading_0 k))"
proof -
  from assms(1) have A: "A = apportioned series_sum (raw_allocations conversion_df election_df)"
    by (simp only: apportion_Inr)
  from assms(2) have B: "B = block_frame 12 A"
    by (simp add: rollup_block A)
  have first: "\<exists>T. rollup series_sum conversion_df election_df level = Inr T
            \<and> graphify_blockify series_sum conversion_df election_df level = Inr T
            \<and> GEOID ` set T = level_key level ` GEOID ` set B
            \<and> (\<forall>t \<in> set T.
                 dem t = sum_list (map dem
                   (filter (\<lambda>b. level_key level (GEOID b) = GEOID t) B))
                 \<and> rep t = sum_list (map rep
                   (filter (\<lambda>b. level_key level (GEOID b) = GEOID t) B)))"
    using assms(3)
  proof (cases rule: valid_levels_cases)
    case 1
    have "\<forall>t \<in> set B. filter (\<lambda>b. GEOID b = GEOID t) B = [t]"
      using distinct_filter_self [of GEOID B] block_frame_distinct [of 12 A] B by blast
    then have "\<forall>t \<in> set B.
        dem t = sum_list (map dem (filter (\<lambda>b. GEOID b = GEOID t) B))
        \<and> rep t = sum_list (map rep (filter (\<lambda>b. GEOID b = GEOID t) B))"
      by simp
    with 1 assms(2) show ?thesis
      by (simp add: graphify_blockify_eq level_key_block)
  next
    case (2 n)
    note c = rollup_coarse(1) [OF 2, of series_sum conversion_df election_df] rollup_coarse(2) [OF 2]
    let ?T = "aggregate n B"
    have "rollup series_sum conversion_df election_df level = Inr ?T"
      by (simp only: c(1) B A)
    moreover have "GEOID ` set ?T = level_key level ` GEOID ` set B"
      by (simp only: c(2) aggregate_keys image_image)
    moreover have "\<forall>t \<in> set ?T.
        dem t = sum_list (map dem (filter (\<lambda>b. level_key level (GEOID b) = GEOID t) B))
        \<and> rep t = sum_list (map rep (filter (\<lambda>b. level_key level (GEOID b) = GEOID t) B))"
      using aggregate_row(1,2) [of _ n B] by (simp add: c(2))
    ultimately show ?thesis
      by (simp only: graphify_blockify_eq) blast
  qed
  let ?T = "aggregate 11 (block_frame 11 A)"
  have "GEOID ` set ?T = take 11 ` set (map GEOID (block_frame 11 A))"
    by (simp only: aggregate_keys image_image set_map)
  also have "\<dots> = take 11 ` {k \<in> a_BLOCK_KEY ` set A. \<not> sentinel 11 k}"
    by (simp only: block_frame_keys sentinel_iff)
  finally have keys: "GEOID ` set ?T = take 11 ` {k \<in> a_BLOCK_KEY ` set A. \<not> sentinel 11 k}" .
  have sums: "\<forall>t \<in> set ?T.
      dem t = sum_list (map a_dem
        (filter (\<lambda>a. \<not> sentinel 11 (a_BLOCK_KEY a) \<and> take 11 (a_BLOCK_KEY a) = GEOID t) A))
      \<and> rep t = sum_list (map a_rep
        (filter (\<lambda>a. \<not> sentinel 11 (a_BLOCK_KEY a) \<and> take 11 (a_BLOCK_KEY a) = GEOID t) A))"
    using aggregate_block_frame_row(2,3) [of _ 11 11 A] by blast
  have second: "\<exists>T. cultivate_blockify series_sum conversion_df election_df ''blockgroup'' = Inr T
            \<and> GEOID ` set T = take 11 ` {k \<in> a_BLOCK_KEY ` set A. \<not> sentinel 11 k}
            \<and> (\<forall>t \<in> set T.
                 dem t = sum_list (map a_dem
                   (filter (\<lambda>a. \<not> sentinel 11 (a_BLOCK_KEY a)
                               \<and> take 11 (a_BLOCK_KEY a) = GEOID t) A))
                 \<and> rep t = sum_list (map a_rep
                   (filter (\<lambda>a. \<not> sentinel 11 (a_BLOCK_KEY a)
                               \<and> take 11 (a_BLOCK_KEY a) = GEOID t) A)))"
    using keys sums by (simp add: cultivate_blockify_eq A)
  have third: "\<forall>k. with_leading_0 (take 11 k) = take 12 (with_leading_0 k)"
    by (simp add: take_leading_0)
  have fourth: "\<forall>k. k \<noteq> [] \<longrightarrow> sentinel 11 k = sentinel 12 (with_leading_0 k)"
    by (simp add: sentinel_leading_0)
  from first second third fourth show ?thesis
    by (intro conjI)
qed

theorem prefix_rule_witness:
  "''tract'' \<in> valid_levels
   \<and> rollup seq_sum
     [\<lparr>c_SRPREC_KEY = ''P1'', c_BLOCK_KEY = ''060010001001001'', c_BLKREG = Num 30,
       c_SRTOTREG = Num 100\<rparr>,
      \<lparr>c_SRPREC_KEY = ''P1'', c_BLOCK_KEY = ''060010001001002'', c_BLKREG = Num 70,
       c_SRTOTREG = Num 100\<rparr>]
     [\<lparr>e_SRPREC_KEY = ''P1'', e_dem = 10, e_rep = 5\<rparr>] ''tract''
   = Inr [\<lparr>GEOID = ''06001000100'', tot = 15, dem = 10, rep = 5\<rparr>]
   \<and> level_key ''tract'' ''060010001001001'' = ''06001000100''
   \<and> level_key ''tract'' ''060010001001002'' = ''06001000100''
   \<and> cultivate_blockify seq_sum
     [\<lparr>c_SRPREC_KEY = ''P1'', c_BLOCK_KEY = ''60010001001001'', c_BLKREG = Num 30,
       c_SRTOTREG = Num 100\<rparr>,
      \<lparr>c_SRPREC_KEY = ''P1'', c_BLOCK_KEY = ''60010001002002'', c_BLKREG = Num 70,
       c_SRTOTREG = Num 100\<rparr>]
     [\<lparr>e_SRPREC_KEY = ''P1'', e_dem = 10, e_rep = 5\<rparr>] ''blockgroup''
   = Inr [\<lparr>GEOID = ''60010001001'', tot = 5, dem = 3, rep = 2\<rparr>,
          \<lparr>GEOID = ''60010001002'', tot = 10, dem = 7, rep = 3\<rparr>]
   \<and> with_leading_0 ''60010001001'' = take 12 (with_leading_0 ''60010001001001'')
   \<and> with_leading_0 ''60010001002'' = take 12 (with_leading_0 ''60010001002002'')"
proof -
  let ?conv = "[\<lparr>c_SRPREC_KEY = ''P1'', c_BLOCK_KEY = ''060010001001001'', c_BLKREG = Num 30,
       c_SRTOTREG = Num 100\<rparr>,
      \<lparr>c_SRPREC_KEY = ''P1'', c_BLOCK_KEY = ''060010001001002'', c_BLKREG = Num 70,
       c_SRTOTREG = Num 100\<rparr>]"
  let ?conv' = "[\<lparr>c_SRPREC_KEY = ''P1'', c_BLOCK_KEY = ''60010001001001'', c_BLKREG = Num 30,
       c_SRTOTREG = Num 100\<rparr>,
      \<lparr>c_SRPREC_KEY = ''P1'', c_BLOCK_KEY = ''60010001002002'', c_BLKREG = Num 70,
       c_SRTOTREG = Num 100\<rparr>]"
  let ?elec = "[\<lparr>e_SRPREC_KEY = ''P1'', e_dem = 10, e_rep = 5\<rparr>]"
  have a: "apportion seq_sum ?conv ?elec
      = Inr [\<lparr>a_SRPREC_KEY = ''P1'', a_BLOCK_KEY = ''060010001001001'', a_dem = 3, a_rep = 2\<rparr>,
             \<lparr>a_SRPREC_KEY = ''P1'', a_BLOCK_KEY = ''060010001001002'', a_dem = 7, a_rep = 3\<rparr>]"
    by (simp add: apportion_total pipeline_defs round64_eval)
  have b: "rollup seq_sum ?conv ?elec ''block''
      = Inr [\<lparr>GEOID = ''060010001001001'', tot = 5, dem = 3, rep = 2\<rparr>,
             \<lparr>GEOID = ''060010001001002'', tot = 10, dem = 7, rep = 3\<rparr>]"
    by (simp add: rollup_eq pipeline_defs aggregation_defs round64_eval)
  have a': "apportion seq_sum ?conv' ?elec
      = Inr [\<lparr>a_SRPREC_KEY = ''P1'', a_BLOCK_KEY = ''60010001001001'', a_dem = 3, a_rep = 2\<rparr>,
             \<lparr>a_SRPREC_KEY = ''P1'', a_BLOCK_KEY = ''60010001002002'', a_dem = 7, a_rep = 3\<rparr>]"
    by (simp add: apportion_total pipeline_defs round64_eval)
  have b': "rollup seq_sum ?conv' ?elec ''block'' = Inr []"
    by (simp add: rollup_eq pipeline_defs aggregation_defs round64_eval)
  have v: "''tract'' \<in> valid_levels"
    by (simp add: valid_levels_def)
  have ev: "rollup seq_sum ?conv ?elec ''tract''
      = Inr [\<lparr>GEOID = ''06001000100'', tot = 15, dem = 10, rep = 5\<rparr>]"
    by (simp add: rollup_eq pipeline_defs aggregation_defs round64_eval)
  have ev': "cultivate_blockify seq_sum ?conv' ?elec ''blockgroup''
      = Inr [\<lparr>GEOID = ''60010001001'', tot = 5, dem = 3, rep = 2\<rparr>,
             \<lparr>GEOID = ''60010001002'', tot = 10, dem = 7, rep = 3\<rparr>]"
    by (simp add: cultivate_blockify_eq pipeline_defs aggregation_defs round64_eval)
  have k: "level_key ''tract'' ''060010001001001'' = ''06001000100''"
    "level_key ''tract'' ''060010001001002'' = ''06001000100''"
    by (simp_all add: level_key_def)
  from prefix_rule [OF a b v, THEN conjunct1]
  have "\<exists>T. rollup seq_sum ?conv ?elec ''tract'' = Inr T"
    by (elim exE conjE) (rule exI)
  note cut = prefix_rule [OF a' b' v, THEN conjunct2, THEN conjunct2, THEN conjunct1, rule_format]
  have w1: "with_leading_0 ''60010001001'' = take 12 (with_leading_0 ''60010001001001'')"
    using cut [of "''60010001001001''"] by simp
  have w2: "with_leading_0 ''60010001002'' = take 12 (with_leading_0 ''60010001002002'')"
    using cut [of "''60010001002002''"] by simp
  from v ev k ev' w1 w2 show ?thesis
    by (intro conjI)
qed

text \<open>
  \<open>Cultivate.blockify\<close> raises at the levels \<open>tract\<close>, \<open>county\<close> and
  \<open>block\<close>, where \<open>Blockify.rollup\<close> groups by the first 11 characters, by the
  first five, and by the identifier.
\<close>

theorem cultivate_prefix_counterexample:
  "level_prefix ''tract'' = Some 11
   \<and> cultivate_blockify seq_sum
     [\<lparr>c_SRPREC_KEY = ''P1'', c_BLOCK_KEY = ''60010001001001'', c_BLKREG = Num 30,
       c_SRTOTREG = Num 100\<rparr>,
      \<lparr>c_SRPREC_KEY = ''P1'', c_BLOCK_KEY = ''60010001002002'', c_BLKREG = Num 70,
       c_SRTOTREG = Num 100\<rparr>]
     [\<lparr>e_SRPREC_KEY = ''P1'', e_dem = 10, e_rep = 5\<rparr>] ''tract'' = Inl ValueError
   \<and> level_prefix ''county'' = Some 5
   \<and> cultivate_blockify seq_sum
     [\<lparr>c_SRPREC_KEY = ''P1'', c_BLOCK_KEY = ''60010001001001'', c_BLKREG = Num 30,
       c_SRTOTREG = Num 100\<rparr>,
      \<lparr>c_SRPREC_KEY = ''P1'', c_BLOCK_KEY = ''60010001002002'', c_BLKREG = Num 70,
       c_SRTOTREG = Num 100\<rparr>]
     [\<lparr>e_SRPREC_KEY = ''P1'', e_dem = 10, e_rep = 5\<rparr>] ''county'' = Inl ValueError
   \<and> cultivate_blockify seq_sum
     [\<lparr>c_SRPREC_KEY = ''P1'', c_BLOCK_KEY = ''60010001001001'', c_BLKREG = Num 30,
       c_SRTOTREG = Num 100\<rparr>,
      \<lparr>c_SRPREC_KEY = ''P1'', c_BLOCK_KEY = ''60010001002002'', c_BLKREG = Num 70,
       c_SRTOTREG = Num 100\<rparr>]
     [\<lparr>e_SRPREC_KEY = ''P1'', e_dem = 10, e_rep = 5\<rparr>] ''block'' = Inl ValueError"
  by (simp add: level_prefix_def cultivate_blockify_eq)

text \<open>
  Claim C4. Every row returned by \<open>Blockify.rollup\<close> or \<open>Graphify.blockify\<close>
  stems from a sub-unit whose 12-character code does not end in \<open>0\<close>, and its counts
  are the sums over such sub-units only. The same holds of \<open>Cultivate.blockify\<close>,
  which holds the identifier of a sub-unit without its leading \<open>0\<close> and tests the
  last of the first 11 characters of that string: the last character of the
  12-character code.
\<close>

theorem sentinel_exclusion:
  assumes "apportion series_sum conversion_df election_df = Inr A" and "t \<in> set T"
  shows "(rollup series_sum conversion_df election_df level = Inr T
            \<or> graphify_blockify series_sum conversion_df election_df level = Inr T
          \<longrightarrow> from_unexcluded (\<lambda>k. k) (level_key level) A t)
         \<and> (cultivate_blockify series_sum conversion_df election_df level = Inr T
            \<and> (\<forall>a \<in> set A. a_BLOCK_KEY a \<noteq> [])
          \<longrightarrow> from_unexcluded with_leading_0 (take 11) A t)"
proof (intro conjI impI)
  from assms(1) have A: "A = apportioned series_sum (raw_allocations conversion_df election_df)"
    by (simp only: apportion_Inr)
  {
    assume "rollup series_sum conversion_df election_df level = Inr T
            \<or> graphify_blockify series_sum conversion_df election_df level = Inr T"
    then have T: "rollup series_sum conversion_df election_df level = Inr T"
      by (simp add: graphify_blockify_eq)
    then have "level \<in> valid_levels"
      by (auto simp: rollup_eq Let_def valid_levels_def split: if_splits)
    then show "from_unexcluded (\<lambda>k. k) (level_key level) A t"
    proof (cases rule: valid_levels_cases)
      case 1
      with T have "T = block_frame 12 A" by (simp add: rollup_block A)
      with assms(2) have "t \<in> set (block_frame 12 A)" by simp
      from block_frame_direct_row [OF this] show ?thesis
        unfolding from_unexcluded_def 1 level_key_block by blast
    next
      case (2 n)
      note c = rollup_coarse(1) [OF 2, of series_sum conversion_df election_df] rollup_coarse(2) [OF 2]
      from T have "T = aggregate n (block_frame 12 A)" by (simp add: c(1) A)
      with assms(2) have "t \<in> set (aggregate n (block_frame 12 A))" by simp
      from aggregate_block_frame_row [OF this] show ?thesis
        unfolding from_unexcluded_def c(2) by blast
    qed
  }
  {
    assume c: "cultivate_blockify series_sum conversion_df election_df level = Inr T
               \<and> (\<forall>a \<in> set A. a_BLOCK_KEY a \<noteq> [])"
    then have "T = aggregate 11 (block_frame 11 A)"
      by (auto simp: cultivate_blockify_eq A split: if_splits)
    with assms(2) have "t \<in> set (aggregate 11 (block_frame 11 A))" by simp
    note row = aggregate_block_frame_row [OF this]
    from c have s: "\<forall>a \<in> set A. sentinel 12 (with_leading_0 (a_BLOCK_KEY a))
        = sentinel 11 (a_BLOCK_KEY a)"
      by (simp add: sentinel_leading_0)
    then have eq: "filter (\<lambda>a. \<not> sentinel 12 (with_leading_0 (a_BLOCK_KEY a))
                       \<and> take 11 (a_BLOCK_KEY a) = GEOID t) A
        = filter (\<lambda>a. \<not> sentinel 11 (a_BLOCK_KEY a) \<and> take 11 (a_BLOCK_KEY a) = GEOID t) A"
      by (intro filter_cong) simp_all
    from row(1) s have "\<exists>a \<in> set A. \<not> sentinel 12 (with_leading_0 (a_BLOCK_KEY a))
        \<and> GEOID t = take 11 (a_BLOCK_KEY a)"
      by blast
    with row(2,3) show "from_unexcluded with_leading_0 (take 11) A t"
      unfolding from_unexcluded_def eq by blast
  }
qed

theorem sentinel_exclusion_witness:
  "sentinel 12 ''060010001000003''
   \<and> rollup seq_sum
     [\<lparr>c_SRPREC_KEY = ''P1'', c_BLOCK_KEY = ''060010001001001'', c_BLKREG = Num 30,
       c_SRTOTREG = Num 100\<rparr>,
      \<lparr>c_SRPREC_KEY = ''P3'', c_BLOCK_KEY = ''060010001000003'', c_BLKREG = Num 1,
       c_SRTOTREG = Num 1\<rparr>,
      \<lparr>c_SRPREC_KEY = ''P1'', c_BLOCK_KEY = ''060010001001002'', c_BLKREG = Num 70,
       c_SRTOTREG = Num 100\<rparr>]
     [\<lparr>e_SRPREC_KEY = ''P1'', e_dem = 10, e_rep = 5\<rparr>,
      \<lparr>e_SRPREC_KEY = ''P3'', e_dem = 4, e_rep = 2\<rparr>] ''tract''
   = Inr [\<lparr>GEOID = ''06001000100'', tot = 15, dem = 10, rep = 5\<rparr>]
   \<and> from_unexcluded (\<lambda>k. k) (level_key ''tract'')
       [\<lparr>a_SRPREC_KEY = ''P1'', a_BLOCK_KEY = ''060010001001001'', a_dem = 3, a_rep = 2\<rparr>,
        \<lparr>a_SRPREC_KEY = ''P3'', a_BLOCK_KEY = ''060010001000003'', a_dem = 4, a_rep = 2\<rparr>,
        \<lparr>a_SRPREC_KEY = ''P1'', a_BLOCK_KEY = ''060010001001002'', a_dem = 7, a_rep = 3\<rparr>]
       \<lparr>GEOID = ''06001000100'', tot = 15, dem = 10, rep = 5\<rparr>
   \<and> sentinel 12 (with_leading_0 ''60010001000003'')
   \<and> cultivate_blockify seq_sum
     [\<lparr>c_SRPREC_KEY = ''P1'', c_BLOCK_KEY = ''60010001001001'', c_BLKREG = Num 30,
       c_SRTOTREG = Num 100\<rparr>,
      \<lparr>c_SRPREC_KEY = ''P3'', c_BLOCK_KEY = ''60010001000003'', c_BLKREG = Num 1,
       c_SRTOTREG = Num 1\<rparr>,
      \<lparr>c_SRPREC_KEY = ''P1'', c_BLOCK_KEY = ''60010001001002'', c_BLKREG = Num 70,
       c_SRTOTREG = Num 100\<rparr>]
     [\<lparr>e_SRPREC_KEY = ''P1'', e_dem = 10, e_rep = 5\<rparr>,
      \<lparr>e_SRPREC_KEY = ''P3'', e_dem = 4, e_rep = 2\<rparr>] ''blockgroup''
   = Inr [\<lparr>GEOID = ''60010001001'', tot = 15, dem = 10, rep = 5\<rparr>]
   \<and> from_unexcluded with_leading_0 (take 11)
       [\<lparr>a_SRPREC_KEY = ''P1'', a_BLOCK_KEY = ''60010001001001'', a_dem = 3, a_rep = 2\<rparr>,
        \<lparr>a_SRPREC_KEY = ''P3'', a_BLOCK_KEY = ''60010001000003'', a_dem = 4, a_rep = 2\<rparr>,
        \<lparr>a_SRPREC_KEY = ''P1'', a_BLOCK_KEY = ''60010001001002'', a_dem = 7, a_rep = 3\<rparr>]
       \<lparr>GEOID = ''60010001001'', tot = 15, dem = 10, rep = 5\<rparr>"
proof -
  let ?conv = "[\<lparr>c_SRPREC_KEY = ''P1'', c_BLOCK_KEY = ''060010001001001'', c_BLKREG = Num 30,
       c_SRTOTREG = Num 100\<rparr>,
      \<lparr>c_SRPREC_KEY = ''P3'', c_BLOCK_KEY = ''060010001000003'', c_BLKREG = Num 1,
       c_SRTOTREG = Num 1\<rparr>,
      \<lparr>c_SRPREC_KEY = ''P1'', c_BLOCK_KEY = ''060010001001002'', c_BLKREG = Num 70,
       c_SRTOTREG = Num 100\<rparr>]"
  let ?conv' = "[\<lparr>c_SRPREC_KEY = ''P1'', c_BLOCK_KEY = ''60010001001001'', c_BLKREG = Num 30,
       c_SRTOTREG = Num 100\<rparr>,
      \<lparr>c_SRPREC_KEY = ''P3'', c_BLOCK_KEY = ''60010001000003'', c_BLKREG = Num 1,
       c_SRTOTREG = Num 1\<rparr>,
      \<lparr>c_SRPREC_KEY = ''P1'', c_BLOCK_KEY = ''60010001001002'', c_BLKREG = Num 70,
       c_SRTOTREG = Num 100\<rparr>]"
  let ?elec = "[\<lparr>e_SRPREC_KEY = ''P1'', e_dem = 10, e_rep = 5\<rparr>,
      \<lparr>e_SRPREC_KEY = ''P3'', e_dem = 4, e_rep = 2\<rparr>]"
  let ?A = "[\<lparr>a_SRPREC_KEY = ''P1'', a_BLOCK_KEY = ''060010001001001'', a_dem = 3, a_rep = 2\<rparr>,
        \<lparr>a_SRPREC_KEY = ''P3'', a_BLOCK_KEY = ''060010001000003'', a_dem = 4, a_rep = 2\<rparr>,
        \<lparr>a_SRPREC_KEY = ''P1'', a_BLOCK_KEY = ''060010001001002'', a_dem = 7, a_rep = 3\<rparr>]"
  let ?A' = "[\<lparr>a_SRPREC_KEY = ''P1'', a_BLOCK_KEY = ''60010001001001'', a_dem = 3, a_rep = 2\<rparr>,
        \<lparr>a_SRPREC_KEY = ''P3'', a_BLOCK_KEY = ''60010001000003'', a_dem = 4, a_rep = 2\<rparr>,
        \<lparr>a_SRPREC_KEY = ''P1'', a_BLOCK_KEY = ''60010001001002'', a_dem = 7, a_rep = 3\<rparr>]"
  let ?t = "\<lparr>GEOID = ''06001000100'', tot = 15, dem = 10, rep = 5\<rparr>"
  let ?t' = "\<lparr>GEOID = ''60010001001'', tot = 15, dem = 10, rep = 5\<rparr>"
  have a: "apportion seq_sum ?conv ?elec = Inr ?A"
    by (simp add: apportion_total pipeline_defs round64_eval)
  have a': "apportion seq_sum ?conv' ?elec = Inr ?A'"
    by (simp add: apportion_total pipeline_defs round64_eval)
  have ev: "rollup seq_sum ?conv ?elec ''tract'' = Inr [?t]"
    by (simp add: rollup_eq pipeline_defs aggregation_defs round64_eval)
  have ev': "cultivate_blockify seq_sum ?conv' ?elec ''blockgroup'' = Inr [?t']"
    by (simp add: cultivate_blockify_eq pipeline_defs aggregation_defs round64_eval)
  have ne: "\<forall>a \<in> set ?A'. a_BLOCK_KEY a \<noteq> []"
    by simp
  have m: "?t \<in> set [?t]" and m': "?t' \<in> set [?t']" by simp_all
  have s: "sentinel 12 ''060010001000003''"
    and s': "sentinel 12 (with_leading_0 ''60010001000003'')"
    by (simp_all add: sentinel_def with_leading_0_def)
  from sentinel_exclusion [OF a m, THEN conjunct1, rule_format, OF disjI1, OF ev]
  have f: "from_unexcluded (\<lambda>k. k) (level_key ''tract'') ?A ?t" .
  from sentinel_exclusion [OF a' m', THEN conjunct2, rule_format, OF conjI, OF ev' ne]
  have f': "from_unexcluded with_leading_0 (take 11) ?A' ?t'" .
  from ev s f ev' s' f' show ?thesis by (simp only: simp_thms)
qed

text \<open>
  Claim C8. At each coarser level the result of \<open>Blockify.rollup\<close> and of
  \<open>Graphify.blockify\<close> is the block-level table grouped by the prefix of that level
  and summed, and this is the table obtained directly from the apportioned rows.
\<close>

theorem aggregation_idempotent:
  assumes "apportion series_sum conversion_df election_df = Inr A"
    and "rollup series_sum conversion_df election_df ''block'' = Inr B"
    and "level_prefix level = Some n"
  shows "rollup series_sum conversion_df election_df level = Inr (aggregate n B)
         \<and> graphify_blockify series_sum conversion_df election_df ''block'' = Inr B
         \<and> graphify_blockify series_sum conversion_df election_df level = Inr (aggregate n B)
         \<and> aggregate n B = direct_aggregate 12 n A"
proof -
  from assms(1) have A: "A = apportioned series_sum (raw_allocations conversion_df election_df)"
    by (simp only: apportion_Inr)
  from assms(2) have B: "B = block_frame 12 A"
    by (simp add: rollup_block A)
  have "rollup series_sum conversion_df election_df level = Inr (aggregate n B)"
    by (simp only: rollup_coarse(1) [OF assms(3)] B A)
  moreover have "aggregate n B = direct_aggregate 12 n A"
    by (simp only: B aggregate_direct)
  ultimately show ?thesis
    using assms(2) by (simp only: graphify_blockify_eq simp_thms)
qed

theorem aggregation_idempotent_witness:
  "level_prefix ''county'' = Some 5
   \<and> rollup seq_sum
     [\<lparr>c_SRPREC_KEY = ''P1'', c_BLOCK_KEY = ''060010001001001'', c_BLKREG = Num 30,
       c_SRTOTREG = Num 100\<rparr>,
      \<lparr>c_SRPREC_KEY = ''P1'', c_BLOCK_KEY = ''060010001001002'', c_BLKREG = Num 70,
       c_SRTOTREG = Num 100\<rparr>]
     [\<lparr>e_SRPREC_KEY = ''P1'', e_dem = 10, e_rep = 5\<rparr>] ''county''
   = Inr (aggregate 5
       [\<lparr>GEOID = ''060010001001001'', tot = 5, dem = 3, rep = 2\<rparr>,
        \<lparr>GEOID = ''060010001001002'', tot = 10, dem = 7, rep = 3\<rparr>])
   \<and> aggregate 5
       [\<lparr>GEOID = ''060010001001001'', tot = 5, dem = 3, rep = 2\<rparr>,
        \<lparr>GEOID = ''060010001001002'', tot = 10, dem = 7, rep = 3\<rparr>]
     = [\<lparr>GEOID = ''06001'', tot = 15, dem = 10, rep = 5\<rparr>]"
proof -
  let ?conv = "[\<lparr>c_SRPREC_KEY = ''P1'', c_BLOCK_KEY = ''060010001001001'', c_BLKREG = Num 30,
       c_SRTOTREG = Num 100\<rparr>,
      \<lparr>c_SRPREC_KEY = ''P1'', c_BLOCK_KEY = ''060010001001002'', c_BLKREG = Num 70,
       c_SRTOTREG = Num 100\<rparr>]"
  let ?elec = "[\<lparr>e_SRPREC_KEY = ''P1'', e_dem = 10, e_rep = 5\<rparr>]"
  have a: "apportion seq_sum ?conv ?elec
      = Inr [\<lparr>a_SRPREC_KEY = ''P1'', a_BLOCK_KEY = ''060010001001001'', a_dem = 3, a_rep = 2\<rparr>,
             \<lparr>a_SRPREC_KEY = ''P1'', a_BLOCK_KEY = ''060010001001002'', a_dem = 7, a_rep = 3\<rparr>]"
    by (simp add: apportion_total pipeline_defs round64_eval)
  have b: "rollup seq_sum ?conv ?elec ''block''
      = Inr [\<lparr>GEOID = ''060010001001001'', tot = 5, dem = 3, rep = 2\<rparr>,
             \<lparr>GEOID = ''060010001001002'', tot = 10, dem = 7, rep = 3\<rparr>]"
    by (simp add: rollup_eq pipeline_defs aggregation_defs round64_eval)
  have p: "level_prefix ''county'' = Some 5"
    by (simp add: level_prefix_def)
  have e: "aggregate 5
       [\<lparr>GEOID = ''060010001001001'', tot = 5, dem = 3, rep = 2\<rparr>,
        \<lparr>GEOID = ''060010001001002'', tot = 10, dem = 7, rep = 3\<rparr>]
     = [\<lparr>GEOID = ''06001'', tot = 15, dem = 10, rep = 5\<rparr>]"
    by (simp add: aggregation_defs)
  from aggregation_idempotent [OF a b p, THEN conjunct1] p e show ?thesis
    by (simp only: simp_thms)
qed

end
